theory Spec2Isabelle
  imports Main "HOL-Library.Multiset" "HOL-Library.Char_ord" "HOL-Library.List_Lexorder"
begin

section \<open>Task progress monitor (js/modules/ui.js, monitorTaskProgress)\<close>

subsection \<open>Values exchanged with the progress fetcher\<close>

text \<open>
  The text of the \<open>error\<close> field of a progress object. \<open>getTaskProgress\<close> builds it from
  \<open>error.message\<close>: either the template with the HTTP status that the function throws itself
  (never empty), or the message of an error raised by \<open>fetch\<close> or \<open>response.json()\<close>; a
  server may also send its own text.
\<close>

datatype err_text = HttpFailure nat | RuntimeMessage string

fun truthy_err :: "err_text option \<Rightarrow> bool" where
  "truthy_err None = False"
| "truthy_err (Some (HttpFailure n)) = True"
| "truthy_err (Some (RuntimeMessage m)) = (m \<noteq> [])"

text \<open>An entry of the \<open>errors\<close> array: a structured record (package, error) or a plain string.\<close>

datatype err_entry = ErrObj string string | ErrStr string

record progress_obj =
  p_error :: "err_text option"
  p_progress :: "int option"
  p_status :: "string option"
  p_message :: "string option"
  p_errors :: "err_entry list"

text \<open>What \<open>await getProgressFunc(taskId)\<close> produces: an exception or a value.\<close>

datatype response = Undefined | Null | Obj progress_obj

datatype fetched = Threw string | Returned response

text \<open>
  The messages the monitor shows. The literals of the source are Chinese; each constructor
  stands for one literal or template:
  \<open>MsgDone\<close> the default "processing finished", \<open>MsgWorking\<close> the default "processing",
  \<open>MsgFetchAborted\<close> "failed to get progress, the task may have completed" (third exception),
  \<open>MsgNoProgress\<close> "cannot get progress information, the task may have completed" (third empty
  response), \<open>MsgFetchError e\<close> "failed to get progress: e", \<open>MsgText m\<close> the server's own
  message, \<open>MsgAdvisory m\<close> the message m followed by "(processing, please wait)".
\<close>

datatype message =
    MsgDone
  | MsgWorking
  | MsgFetchAborted
  | MsgNoProgress
  | MsgFetchError err_text
  | MsgText string
  | MsgAdvisory message

text \<open>\<open>progress.message || dflt\<close>: an absent or empty message is falsy.\<close>

fun message_or :: "string option \<Rightarrow> message \<Rightarrow> message" where
  "message_or None dflt = dflt"
| "message_or (Some m) dflt = (if m = [] then dflt else MsgText m)"

text \<open>The second argument of \<open>updateProgressBar\<close>: the title changes only for a truthy message.\<close>

fun bar_message :: "string option \<Rightarrow> message option" where
  "bar_message None = None"
| "bar_message (Some m) = (if m = [] then None else Some (MsgText m))"

subsection \<open>State of one monitor\<close>

text \<open>
  One run of the deferred completion handler (the \<open>setTimeout\<close> of one second inside
  \<open>cleanupAndComplete\<close>, which is never cancelled): it shows one notification and calls
  \<open>onComplete(progressData || {})\<close> once.
\<close>

record completion =
  c_message :: message
  c_isError :: bool
  c_data :: "progress_obj option"

text \<open>
  The closure variables of \<open>monitorTaskProgress\<close>, the two timers (\<open>intervalActive\<close>: the
  \<open>setInterval\<close> is registered and not cleared; \<open>safetyActive\<close>: the 60 second \<open>setTimeout\<close> is
  pending), the calls of \<open>updateProgressBar\<close> made so far and the completion handlers
  scheduled so far.
\<close>

record monitor =
  lastProgressPercent :: int
  stagnantCount :: nat
  consecutiveErrorCount :: nat
  taskCompleted :: bool
  intervalActive :: bool
  safetyActive :: bool
  barCalls :: "(int \<times> message option) list"
  completions :: "completion list"

definition monitorTaskProgress :: monitor where
  "monitorTaskProgress =
     \<lparr> lastProgressPercent = 0, stagnantCount = 0, consecutiveErrorCount = 0,
       taskCompleted = False, intervalActive = True, safetyActive = True,
       barCalls = [], completions = [] \<rparr>"

text \<open>\<open>updateProgressBar\<close> clamps the percentage it is given before showing it.\<close>

definition safePercent :: "int \<Rightarrow> int" where
  "safePercent percent = min (max 0 percent) 100"

definition updateProgressBar :: "int \<Rightarrow> message option \<Rightarrow> monitor \<Rightarrow> monitor" where
  "updateProgressBar percent msg s = s\<lparr> barCalls := barCalls s @ [(percent, msg)] \<rparr>"

definition cleanupAndComplete :: "message \<Rightarrow> bool \<Rightarrow> progress_obj option \<Rightarrow> monitor \<Rightarrow> monitor" where
  "cleanupAndComplete msg isError progressData s =
     (if taskCompleted s then s
      else updateProgressBar 100 (Some msg)
             (s\<lparr> taskCompleted := True, intervalActive := False, safetyActive := False,
                 completions := completions s @
                   [\<lparr> c_message = msg, c_isError = isError, c_data = progressData \<rparr>] \<rparr>))"

subsection \<open>One polling tick\<close>

text \<open>The \<open>catch\<close> branch around \<open>await getProgressFunc(taskId)\<close>.\<close>

definition on_throw :: "monitor \<Rightarrow> monitor" where
  "on_throw s =
     (let s1 = s\<lparr> consecutiveErrorCount := consecutiveErrorCount s + 1 \<rparr>
      in if consecutiveErrorCount s1 \<ge> 3
         then cleanupAndComplete MsgFetchAborted True None s1
         else s1)"

text \<open>The branch \<open>if (!progress)\<close>; it runs after the assignment that resets the counter.\<close>

definition on_empty :: "monitor \<Rightarrow> monitor" where
  "on_empty s =
     (let s1 = s\<lparr> consecutiveErrorCount := consecutiveErrorCount s + 1 \<rparr>
      in if consecutiveErrorCount s1 \<ge> 3
         then cleanupAndComplete MsgNoProgress True None s1
         else s1)"

text \<open>\<open>progress.progress || 0\<close>.\<close>

definition reported :: "progress_obj \<Rightarrow> int" where
  "reported p = (case p_progress p of None \<Rightarrow> 0 | Some n \<Rightarrow> n)"

text \<open>The value \<open>displayPercent\<close> after the statement that keeps the bar from going back.\<close>

definition displayPercent :: "progress_obj \<Rightarrow> monitor \<Rightarrow> int" where
  "displayPercent p s =
     (if reported p < lastProgressPercent s then lastProgressPercent s else reported p)"

definition on_progress :: "progress_obj \<Rightarrow> monitor \<Rightarrow> monitor" where
  "on_progress p s =
     (if truthy_err (p_error p)
      then (case p_error p of
              Some e \<Rightarrow> cleanupAndComplete (MsgFetchError e) True None s
            | None \<Rightarrow> s)
      else
        let d = displayPercent p s;
            s1 = (if reported p < lastProgressPercent s then s
                  else s\<lparr> lastProgressPercent := reported p \<rparr>);
            s2 = updateProgressBar d (bar_message (p_message p)) s1;
            isCompleted = (p_status p = Some ''completed'' \<or> d \<ge> 100)
        in if d = lastProgressPercent s2
           then
             (let s3 = s2\<lparr> stagnantCount := stagnantCount s2 + 1 \<rparr>
              in if d = 100 \<and> stagnantCount s3 > 2
                 then cleanupAndComplete MsgDone False None s3
                 else
                   let s4 = (if stagnantCount s3 > 10 \<and> d < 100
                             then updateProgressBar d
                                    (Some (MsgAdvisory (message_or (p_message p) MsgWorking))) s3
                             else s3)
                   in if isCompleted
                      then cleanupAndComplete (message_or (p_message p) MsgDone) False (Some p) s4
                      else s4)
           else
             (let s3 = s2\<lparr> stagnantCount := 0 \<rparr>
              in if isCompleted
                 then cleanupAndComplete (message_or (p_message p) MsgDone) False (Some p) s3
                 else s3))"

text \<open>
  The part of the interval callback that runs once \<open>await getProgressFunc(taskId)\<close> has
  settled. The DOM updates are taken to succeed, so the outer \<open>catch\<close> is not entered.
\<close>

definition tick_body :: "fetched \<Rightarrow> monitor \<Rightarrow> monitor" where
  "tick_body f s =
     (case f of
        Threw e \<Rightarrow> on_throw s
      | Returned r \<Rightarrow>
          (let s0 = s\<lparr> consecutiveErrorCount := 0 \<rparr>
           in case r of
                Obj p \<Rightarrow> on_progress p s0
              | Undefined \<Rightarrow> on_empty s0
              | Null \<Rightarrow> on_empty s0))"

text \<open>The whole callback, when the fetch settles before anything else happens.\<close>

definition tick :: "fetched \<Rightarrow> monitor \<Rightarrow> monitor" where
  "tick f s = (if taskCompleted s then s\<lparr> intervalActive := False \<rparr> else tick_body f s)"

text \<open>The callback of the safety timer.\<close>

definition safety_timeout :: "monitor \<Rightarrow> monitor" where
  "safety_timeout s = (if \<not> taskCompleted s then cleanupAndComplete MsgDone False None s else s)"

subsection \<open>Runs\<close>

text \<open>
  What the event loop can deliver to one monitor: \<open>Poll f\<close> is an interval tick whose fetch
  settles with \<open>f\<close> at once; \<open>Late f\<close> is the rest of a tick that passed its guard earlier and
  whose fetch settles only now (the interval does not wait for a slow fetch);
  \<open>SafetyTimeout\<close> is the 60 second timer. A cleared timer delivers nothing, and the safety
  timer fires once.
\<close>

datatype event = Poll fetched | Late fetched | SafetyTimeout

fun step :: "monitor \<Rightarrow> event \<Rightarrow> monitor" where
  "step s (Poll f) = (if intervalActive s then tick f s else s)"
| "step s (Late f) = tick_body f s"
| "step s SafetyTimeout =
     (if safetyActive s then safety_timeout (s\<lparr> safetyActive := False \<rparr>) else s)"

definition run :: "event list \<Rightarrow> monitor \<Rightarrow> monitor" where
  "run evs s = foldl step s evs"

text \<open>Consecutive ticks, each settled before the next one fires.\<close>

definition polls :: "fetched list \<Rightarrow> monitor \<Rightarrow> monitor" where
  "polls fs s = foldl (\<lambda>s f. step s (Poll f)) s fs"


text \<open>A progress object as the backend sends it while a job runs (used for concrete runs).\<close>

definition report :: "int \<Rightarrow> string \<Rightarrow> progress_obj" where
  "report n st = \<lparr> p_error = None, p_progress = Some n, p_status = Some st,
                   p_message = None, p_errors = [] \<rparr>"

section \<open>The production progress fetcher (js/modules/api.js, getTaskProgress)\<close>

text \<open>
  What \<open>fetch\<close> and \<open>response.json()\<close> can deliver: the request is rejected (network
  failure) with a message, or a response arrives with a status and a body that is either not
  JSON (the parser raises, with a message) or a JSON value. A JSON value is never
  \<open>undefined\<close>; \<open>JNull\<close> stands for the falsy values, \<open>JObj\<close> for an object with the fields the
  monitor reads.
\<close>

datatype json = JNull | JObj progress_obj

datatype body = NotJson string | Json json

datatype fetch_result = Rejected string | Http nat body

definition response_ok :: "nat \<Rightarrow> bool" where
  "response_ok status \<longleftrightarrow> 200 \<le> status \<and> status \<le> 299"

fun of_json :: "json \<Rightarrow> response" where
  "of_json JNull = Null"
| "of_json (JObj p) = Obj p"

text \<open>The \<open>try\<close> block: \<open>Inl\<close> is the \<open>error.message\<close> of what it throws.\<close>

fun request_progress :: "fetch_result \<Rightarrow> err_text + response" where
  "request_progress (Rejected m) = Inl (RuntimeMessage m)"
| "request_progress (Http status b) =
     (if \<not> response_ok status then Inl (HttpFailure status)
      else case b of NotJson m \<Rightarrow> Inl (RuntimeMessage m) | Json j \<Rightarrow> Inr (of_json j))"

definition error_object :: "err_text \<Rightarrow> progress_obj" where
  "error_object e = \<lparr> p_error = Some e, p_progress = None, p_status = None,
                      p_message = None, p_errors = [] \<rparr>"

definition getTaskProgress :: "fetch_result \<Rightarrow> fetched" where
  "getTaskProgress fr =
     (case request_progress fr of
        Inl e \<Rightarrow> Returned (Obj (error_object e))
      | Inr r \<Rightarrow> Returned r)"

text \<open>A failed request: the \<open>try\<close> block of \<open>getTaskProgress\<close> throws.\<close>

definition request_failed :: "fetch_result \<Rightarrow> bool" where
  "request_failed fr = (case request_progress fr of Inl e \<Rightarrow> True | Inr r \<Rightarrow> False)"

section \<open>The dependency list (js/modules/ui.js, js/modules/dependency-manager.js)\<close>

subsection \<open>Entries and rows\<close>

record dependency =
  name :: string
  version :: string
  latestVersion :: "string option"
  isLatest :: bool
  isSystem :: bool
  isAppRequired :: bool
  isCore :: bool
  isAIModel :: bool
  description :: "string option"

text \<open>
  A rendered row (\<open>div.dependency-item\<close>): \<open>dataset.name\<close>, the style classes, the
  \<open>selected\<close> class and whether \<open>style.display\<close> is \<open>none\<close>.
\<close>

record item =
  it_name :: string
  cls_system :: bool
  cls_core :: bool
  cls_ai_model :: bool
  cls_app_required :: bool
  cls_selected :: bool
  display_none :: bool

text \<open>
  The module state of ui.js (\<open>allDependencies\<close>, \<open>selectedDependencies\<close>), the rows under
  \<open>#dependency-list\<close> and \<open>dependencyHandler.originalOrder\<close>. The list element is taken to
  exist.
\<close>

record ui =
  allDependencies :: "dependency list"
  selectedDependencies :: "string set"
  rows :: "item list"
  originalOrder :: "item list"

subsection \<open>Array.prototype.sort\<close>

text \<open>
  \<open>Array.prototype.sort\<close> with a comparator is stable; for a consistent comparator its
  result is the stable arrangement in comparator order. It is modelled as insertion from the
  right, an element going before the first later element it does not exceed.
\<close>

fun insert_by :: "('a \<Rightarrow> 'a \<Rightarrow> int) \<Rightarrow> 'a \<Rightarrow> 'a list \<Rightarrow> 'a list" where
  "insert_by cmp x [] = [x]"
| "insert_by cmp x (y # ys) = (if cmp x y \<le> 0 then x # y # ys else y # insert_by cmp x ys)"

definition array_sort :: "('a \<Rightarrow> 'a \<Rightarrow> int) \<Rightarrow> 'a list \<Rightarrow> 'a list" where
  "array_sort cmp xs = foldr (insert_by cmp) xs []"

subsection \<open>renderDependencyList\<close>

text \<open>
  The comparator of \<open>renderDependencyList\<close>. \<open>String.prototype.localeCompare\<close> depends on the
  locale of the browser, so it is the parameter \<open>lc\<close>.
\<close>

definition compareDeps :: "(string \<Rightarrow> string \<Rightarrow> int) \<Rightarrow> dependency \<Rightarrow> dependency \<Rightarrow> int" where
  "compareDeps lc a b =
     (if isSystem a \<and> \<not> isSystem b then - 1
      else if \<not> isSystem a \<and> isSystem b then 1
      else if isAppRequired a \<and> \<not> isAppRequired b then - 1
      else if \<not> isAppRequired a \<and> isAppRequired b then 1
      else if isCore a \<and> \<not> isCore b then - 1
      else if \<not> isCore a \<and> isCore b then 1
      else if isAIModel a \<and> \<not> isAIModel b then - 1
      else if \<not> isAIModel a \<and> isAIModel b then 1
      else lc (name a) (name b))"

definition render_row :: "string set \<Rightarrow> dependency \<Rightarrow> item" where
  "render_row sel dep =
     \<lparr> it_name = name dep, cls_system = isSystem dep, cls_core = isCore dep,
       cls_ai_model = isAIModel dep, cls_app_required = isAppRequired dep,
       cls_selected = (name dep \<in> sel), display_none = False \<rparr>"

definition renderDependencyList :: "(string \<Rightarrow> string \<Rightarrow> int) \<Rightarrow> dependency list \<Rightarrow> ui \<Rightarrow> ui" where
  "renderDependencyList lc dependencies st =
     (if dependencies = [] then st\<lparr> allDependencies := [], rows := [] \<rparr>
      else
        let sorted_deps = array_sort (compareDeps lc) dependencies
        in st\<lparr> allDependencies := sorted_deps,
               rows := map (render_row (selectedDependencies st)) sorted_deps \<rparr>)"

text \<open>The listener of \<open>dependency-selection-changed\<close> in ui.js.\<close>

definition selection_changed :: "string \<Rightarrow> bool \<Rightarrow> string set \<Rightarrow> string set" where
  "selection_changed packageName selected sel =
     (if selected then insert packageName sel else sel - {packageName})"

text \<open>
  The precedence in the words of the specification: system entries first, then
  application-required, then core, then AI-model entries, then the rest; entries equal on all
  four flags in the order of their keys.
\<close>

definition flag_rank :: "dependency \<Rightarrow> nat" where
  "flag_rank d =
     (if isSystem d then 0 else 8) + (if isAppRequired d then 0 else 4) +
     (if isCore d then 0 else 2) + (if isAIModel d then 0 else 1)"

definition precedes :: "(string \<Rightarrow> string \<Rightarrow> int) \<Rightarrow> dependency \<Rightarrow> dependency \<Rightarrow> bool" where
  "precedes lc a b \<longleftrightarrow>
     flag_rank a < flag_rank b \<or> (flag_rank a = flag_rank b \<and> lc (name a) (name b) \<le> 0)"

text \<open>
  What is assumed of \<open>localeCompare\<close>: it compares every string equal to itself, its sign
  flips with its arguments, and "not after" is transitive.
\<close>

definition collation :: "(string \<Rightarrow> string \<Rightarrow> int) \<Rightarrow> bool" where
  "collation lc \<longleftrightarrow>
     (\<forall>a. lc a a = 0) \<and>
     (\<forall>a b. lc a b < 0 \<longleftrightarrow> 0 < lc b a) \<and>
     (\<forall>a b c. lc a b \<le> 0 \<and> lc b c \<le> 0 \<longrightarrow> lc a c \<le> 0)"

text \<open>One collation: comparison by character codes.\<close>

definition ordinal_compare :: "string \<Rightarrow> string \<Rightarrow> int" where
  "ordinal_compare a b = (if a = b then 0 else if a < b then - 1 else 1)"

subsection \<open>filterDependencies\<close>

definition shouldShow :: "string \<Rightarrow> item \<Rightarrow> bool" where
  "shouldShow filterType it =
     (if filterType = ''system'' then cls_system it
      else if filterType = ''app'' then cls_app_required it
      else if filterType = ''ai'' then cls_ai_model it
      else if filterType = ''core'' then cls_core it
      else if filterType = ''other''
        then \<not> cls_system it \<and> \<not> cls_app_required it \<and> \<not> cls_core it \<and> \<not> cls_ai_model it
      else True)"

text \<open>The body of the loop over the rows: the new row and the new selection set.\<close>

definition filter_item :: "string \<Rightarrow> item \<Rightarrow> string set \<Rightarrow> item \<times> string set" where
  "filter_item filterType it sel =
     (let wasSelected = cls_selected it; packageName = it_name it
      in if shouldShow filterType it then (it\<lparr> display_none := False \<rparr>, sel)
         else if wasSelected \<and> packageName \<noteq> []
           then (it\<lparr> display_none := True, cls_selected := False \<rparr>,
                 selection_changed packageName False sel)
         else (it\<lparr> display_none := True \<rparr>, sel))"

fun filter_items :: "string \<Rightarrow> item list \<Rightarrow> string set \<Rightarrow> item list \<times> string set" where
  "filter_items filterType [] sel = ([], sel)"
| "filter_items filterType (it # its) sel =
     (let (it', sel1) = filter_item filterType it sel;
          (its', sel2) = filter_items filterType its sel1
      in (it' # its', sel2))"

definition filterDependencies :: "string \<Rightarrow> ui \<Rightarrow> ui" where
  "filterDependencies filterType st =
     (let (rows', sel') = filter_items filterType (rows st) (selectedDependencies st)
      in st\<lparr> rows := rows', selectedDependencies := sel' \<rparr>)"

subsection \<open>searchDependencies\<close>

text \<open>\<open>toLowerCase\<close>, on the letters A to Z.\<close>

definition lower_char :: "char \<Rightarrow> char" where
  "lower_char c =
     (if CHR ''A'' \<le> c \<and> c \<le> CHR ''Z'' then char_of (of_char c + (32::nat)) else c)"

definition toLowerCase :: "string \<Rightarrow> string" where
  "toLowerCase s = map lower_char s"

definition startsWith :: "string \<Rightarrow> string \<Rightarrow> bool" where
  "startsWith s q \<longleftrightarrow> take (length q) s = q"

text \<open>\<open>indexOf\<close>: the first position at which \<open>q\<close> occurs, \<open>None\<close> for the result -1.\<close>

fun indexOf :: "string \<Rightarrow> string \<Rightarrow> nat option" where
  "indexOf [] q = (if q = [] then Some 0 else None)"
| "indexOf (c # cs) q =
     (if startsWith (c # cs) q then Some 0 else map_option Suc (indexOf cs q))"

definition includes_str :: "string \<Rightarrow> string \<Rightarrow> bool" where
  "includes_str s q \<longleftrightarrow> indexOf s q \<noteq> None"

definition score :: "string \<Rightarrow> item \<Rightarrow> int" where
  "score query it =
     (let packageName = (if it_name it \<noteq> [] then toLowerCase (it_name it) else [])
      in if packageName = [] then 0
         else
           let lowerQuery = toLowerCase query
           in if startsWith packageName lowerQuery
              then (2000 - int (length packageName)) +
                   (if int (length packageName) - int (length lowerQuery) < 3 then 500 else 0)
              else if includes_str packageName lowerQuery
              then (case indexOf packageName lowerQuery of
                      Some i \<Rightarrow> 1000 - int i - int (length packageName)
                    | None \<Rightarrow> 0)
              else 0)"

text \<open>The scored copies of the rows, sorted by \<open>(a, b) => b.score - a.score\<close>.\<close>

definition rank :: "string \<Rightarrow> item list \<Rightarrow> item list" where
  "rank query its =
     map fst (array_sort (\<lambda>a b. snd b - snd a) (map (\<lambda>it. (it, score query it)) its))"

definition resetDependencyOrder :: "ui \<Rightarrow> ui" where
  "resetDependencyOrder st = (if originalOrder st = [] then st else st\<lparr> rows := originalOrder st \<rparr>)"

definition searchDependencies :: "string \<Rightarrow> ui \<Rightarrow> ui" where
  "searchDependencies query st =
     (let st1 = (if originalOrder st = [] then st\<lparr> originalOrder := rows st \<rparr> else st)
      in if query = [] then resetDependencyOrder st1
         else st1\<lparr> rows := rank query (rows st1) \<rparr>)"

text \<open>
  The \<open>change\<close> listener that \<open>rebindDependencyEvents\<close> puts on the checkbox of a row after
  the rows have been rearranged (rows of protected entries are rendered without a
  checkbox): it marks or unmarks its row and sends \<open>dependency-selection-changed\<close>.
\<close>

definition checkbox_changed :: "string \<Rightarrow> bool \<Rightarrow> ui \<Rightarrow> ui" where
  "checkbox_changed packageName checked st =
     (case find (\<lambda>r. it_name r = packageName) (rows st) of
        None \<Rightarrow> st
      | Some dependencyItem \<Rightarrow>
          if cls_system dependencyItem \<or> cls_app_required dependencyItem then st
          else if cls_selected dependencyItem \<noteq> checked
          then st\<lparr> rows := map (\<lambda>r. if it_name r = packageName
                                      then r\<lparr> cls_selected := checked \<rparr> else r) (rows st),
                    selectedDependencies :=
                      selection_changed packageName checked (selectedDependencies st) \<rparr>
          else st)"


text \<open>
  The score in the words of the specification, for a key \<open>k\<close> and a query \<open>q\<close>, both
  compared in lower case.
\<close>

definition spec_score :: "string \<Rightarrow> string \<Rightarrow> int" where
  "spec_score q k =
     (if startsWith (toLowerCase k) (toLowerCase q)
      then 2000 - int (length k) + (if int (length k) - int (length q) < 3 then 500 else 0)
      else case indexOf (toLowerCase k) (toLowerCase q) of
             Some i \<Rightarrow> 1000 - int i - int (length k)
           | None \<Rightarrow> 0)"

section \<open>Refreshing after a finished job (js/modules/dependency-manager.js, js/modules/core-api.js)\<close>

text \<open>What \<open>getSingleDependency\<close> does: it throws, returns nothing, or returns the entry.\<close>

datatype single_fetch = FetchThrows | FetchNothing | FetchEntry dependency

text \<open>
  The calls that change the list: \<open>updateDependencyItem(dep)\<close> (module ui-components.js),
  \<open>refreshDependencies(useCache)\<close>, which reloads and renders the whole list, and
  notifications.
\<close>

datatype effect = UpdateItem dependency | FullReload bool | NotifySuccess | NotifyError

text \<open>
  \<open>refreshSingleDependency\<close>: every exception is caught and turned into \<open>null\<close>. Whether
  \<open>updateDependencyItem\<close> succeeds is the parameter \<open>item_ok\<close>.
\<close>

fun refreshSingleDependency :: "bool \<Rightarrow> single_fetch \<Rightarrow> dependency option \<times> effect list" where
  "refreshSingleDependency item_ok FetchThrows = (None, [])"
| "refreshSingleDependency item_ok FetchNothing = (None, [])"
| "refreshSingleDependency item_ok (FetchEntry d) =
     (if item_ok then (Some d, [UpdateItem d]) else (None, []))"

text \<open>The completion callback of a version switch.\<close>

definition switch_onComplete :: "bool \<Rightarrow> single_fetch \<Rightarrow> effect list" where
  "switch_onComplete item_ok sf =
     (case refreshSingleDependency item_ok sf of
        (Some updatedDep, es) \<Rightarrow> es @ [NotifySuccess]
      | (None, es) \<Rightarrow> es @ [FullReload False])"

text \<open>The completion callback of an update.\<close>

definition update_onComplete :: "bool \<Rightarrow> single_fetch \<Rightarrow> effect list" where
  "update_onComplete item_ok sf = snd (refreshSingleDependency item_ok sf)"

text \<open>
  The answer of a mutation endpoint: the call throws, or returns \<open>success\<close> and possibly a
  task id.
\<close>

datatype api_result = ApiThrows | ApiResult bool "string option"

text \<open>
  \<open>handleTaskWithProgress\<close>: its return value, what it does before it returns, and the
  completion callback it hands to the monitor (if it starts one). It returns as soon as the
  monitor is started.
\<close>

fun handleTaskWithProgress :: "bool \<Rightarrow> api_result \<Rightarrow> bool \<times> effect list \<times> effect list option" where
  "handleTaskWithProgress refreshList ApiThrows = (False, [NotifyError], None)"
| "handleTaskWithProgress refreshList (ApiResult success taskId) =
     (if success
      then (case taskId of
              Some t \<Rightarrow>
                (if t \<noteq> [] then (True, [], Some (if refreshList then [FullReload False] else []))
                 else (True, NotifySuccess # (if refreshList then [FullReload False] else []), None))
            | None \<Rightarrow> (True, NotifySuccess # (if refreshList then [FullReload False] else []), None))
      else (False, [NotifyError], None))"

text \<open>
  \<open>handlePackageInstall\<close>: what runs before it returns and what the completion callback of
  the monitor does. \<open>refreshSingleDependency\<close> does not throw, so the \<open>catch\<close> is not entered.
\<close>

definition handlePackageInstall :: "bool \<Rightarrow> api_result \<Rightarrow> single_fetch \<Rightarrow> effect list \<times> effect list option" where
  "handlePackageInstall item_ok r sf =
     (case handleTaskWithProgress True r of
        (result, now, later) \<Rightarrow>
          (if result then (now @ snd (refreshSingleDependency item_ok sf), later)
           else (now, later)))"


section \<open>Invariants\<close>

text \<open>
  A monitor is settled when it has scheduled no completion handler and both its timers are
  pending, or has scheduled exactly one and cancelled both timers.
\<close>

definition settled :: "monitor \<Rightarrow> bool" where
  "settled s \<longleftrightarrow>
     (if taskCompleted s
      then length (completions s) = 1 \<and> \<not> intervalActive s \<and> \<not> safetyActive s
      else completions s = [] \<and> safetyActive s \<and> intervalActive s)"


text \<open>Events without late continuations: every tick settles before the next event.\<close>

fun sequential :: "event \<Rightarrow> bool" where
  "sequential (Late f) = False"
| "sequential (Poll f) = True"
| "sequential SafetyTimeout = True"

text \<open>
  The bar never went back so far, and while the monitor runs nothing shown exceeds
  \<open>lastProgressPercent\<close>.
\<close>

definition bar_steady :: "monitor \<Rightarrow> bool" where
  "bar_steady s \<longleftrightarrow>
     sorted (map (safePercent \<circ> fst) (barCalls s)) \<and>
     (if taskCompleted s then \<not> intervalActive s
      else \<forall>c \<in> set (barCalls s). fst c \<le> lastProgressPercent s)"


text \<open>No completion carries one of the two messages of the retry branches.\<close>

definition retry_free :: "monitor \<Rightarrow> bool" where
  "retry_free s \<longleftrightarrow>
     (\<forall>c \<in> set (completions s). c_message c \<noteq> MsgFetchAborted \<and> c_message c \<noteq> MsgNoProgress)"


section \<open>Sample data\<close>

text \<open>An entry with the given key and flags, and a list state with nothing in it.\<close>

definition entry :: "string \<Rightarrow> bool \<Rightarrow> bool \<Rightarrow> bool \<Rightarrow> bool \<Rightarrow> dependency" where
  "entry n sys app core ai =
     \<lparr> name = n, version = ''1.0'', latestVersion = None, isLatest = True, isSystem = sys,
       isAppRequired = app, isCore = core, isAIModel = ai, description = None \<rparr>"

definition empty_ui :: ui where
  "empty_ui = \<lparr> allDependencies = [], selectedDependencies = {}, rows = [], originalOrder = [] \<rparr>"


text \<open>A rendered list of two entries, the second one selected.\<close>

definition sample_ui :: ui where
  "sample_ui = renderDependencyList ordinal_compare
      [entry ''numpy'' False False True False, entry ''pip'' True False False False]
      (empty_ui\<lparr> selectedDependencies := {''numpy''} \<rparr>)"


text \<open>A plain row with the given key, a row with a key of 501 characters, and four rows to search.\<close>

definition row_of :: "string \<Rightarrow> item" where
  "row_of n = \<lparr> it_name = n, cls_system = False, cls_core = False, cls_ai_model = False,
               cls_app_required = False, cls_selected = False, display_none = False \<rparr>"


definition long_row :: item where
  "long_row = row_of (replicate 500 (CHR ''a'') @ ''b'')"


definition sample_items :: "item list" where
  "sample_items = map row_of [''numpy'', ''numba'', ''pandas'', ''numexpr'']"


text \<open>
  A list of two entries on which the user searches for \<open>n\<close>, ticks the checkbox of
  \<open>numpy\<close> and clears the search.
\<close>

definition two_entries :: "dependency list" where
  "two_entries = [entry ''pip'' True False False False, entry ''numpy'' False False True False]"

definition stale_marks :: ui where
  "stale_marks =
     searchDependencies []
       (checkbox_changed ''numpy'' True
         (searchDependencies ''n'' (renderDependencyList ordinal_compare two_entries empty_ui)))"



section \<open>Auxiliary functions\<close>

text \<open>What \<open>filterDependencies\<close> makes of one row (the selection set plays no part in it).\<close>

definition hide_row :: "string \<Rightarrow> item \<Rightarrow> item" where
  "hide_row ft r = fst (filter_item ft r {})"


text \<open>In the words of the specification: the key contains the query, both in lower case.\<close>

definition matches :: "string \<Rightarrow> item \<Rightarrow> bool" where
  "matches q it \<longleftrightarrow> includes_str (toLowerCase (it_name it)) (toLowerCase q)"


section \<open>Properties of the monitor\<close>

subsection \<open>Completion happens once\<close>

lemma settled_cleanup: "settled s \<Longrightarrow> settled (cleanupAndComplete m e d s)"
  by (auto simp: settled_def cleanupAndComplete_def updateProgressBar_def)

lemma completed_cleanup: "taskCompleted (cleanupAndComplete m e d s)"
  by (simp add: cleanupAndComplete_def updateProgressBar_def)

lemma settled_fields:
  "settled (s\<lparr> consecutiveErrorCount := c \<rparr>) = settled s"
  "settled (s\<lparr> stagnantCount := n \<rparr>) = settled s"
  "settled (s\<lparr> lastProgressPercent := l \<rparr>) = settled s"
  "settled (updateProgressBar q msg s) = settled s"
  by (simp_all add: settled_def updateProgressBar_def)

lemma settled_on_throw: "settled s \<Longrightarrow> settled (on_throw s)"
  by (simp add: on_throw_def Let_def settled_cleanup settled_fields)

lemma settled_on_empty: "settled s \<Longrightarrow> settled (on_empty s)"
  by (simp add: on_empty_def Let_def settled_cleanup settled_fields)

lemma settled_on_progress: "settled s \<Longrightarrow> settled (on_progress p s)"
  by (simp add: on_progress_def Let_def settled_cleanup settled_fields split: option.splits)

lemma settled_tick_body: "settled s \<Longrightarrow> settled (tick_body f s)"
  by (simp add: tick_body_def Let_def settled_on_throw settled_on_empty settled_on_progress
      settled_fields split: fetched.splits response.splits)

lemma settled_step: "settled s \<Longrightarrow> settled (step s ev)"
proof (cases ev)
  case (Poll f)
  assume "settled s"
  then show ?thesis using Poll
    by (auto simp: tick_def settled_tick_body) (auto simp: settled_def)
next
  case (Late f)
  assume "settled s"
  then show ?thesis using Late by (simp add: settled_tick_body)
next
  case SafetyTimeout
  assume a: "settled s"
  then show ?thesis using SafetyTimeout
    by (auto simp: safety_timeout_def settled_def cleanupAndComplete_def updateProgressBar_def)
qed

lemma settled_run: "settled s \<Longrightarrow> settled (run evs s)"
  unfolding run_def by (induction evs arbitrary: s) (simp_all add: settled_step)

lemma settled_init: "settled monitorTaskProgress"
  by (simp add: settled_def monitorTaskProgress_def)



lemma completed_on_throw: "taskCompleted s \<Longrightarrow> taskCompleted (on_throw s)"
  by (simp add: on_throw_def Let_def cleanupAndComplete_def)

lemma completed_on_empty: "taskCompleted s \<Longrightarrow> taskCompleted (on_empty s)"
  by (simp add: on_empty_def Let_def cleanupAndComplete_def)

lemma completed_on_progress: "taskCompleted s \<Longrightarrow> taskCompleted (on_progress p s)"
  by (simp add: on_progress_def Let_def cleanupAndComplete_def updateProgressBar_def
      split: option.splits)

lemma completed_step: "taskCompleted s \<Longrightarrow> taskCompleted (step s ev)"
  by (cases ev)
     (simp_all add: tick_def tick_body_def safety_timeout_def Let_def completed_on_throw
        completed_on_empty completed_on_progress split: fetched.splits response.splits)

lemma completed_run: "taskCompleted s \<Longrightarrow> taskCompleted (run evs s)"
  unfolding run_def by (induction evs arbitrary: s) (simp_all add: completed_step)

lemma completed_safety: "settled s \<Longrightarrow> taskCompleted (step s SafetyTimeout)"
  by (auto simp: settled_def safety_timeout_def completed_cleanup)

lemma safety_forces_completion:
  "settled s \<Longrightarrow> SafetyTimeout \<in> set evs \<Longrightarrow> taskCompleted (run evs s)"
proof (induction evs arbitrary: s)
  case Nil
  then show ?case by simp
next
  case (Cons ev evs)
  have r: "run (ev # evs) s = run evs (step s ev)" by (simp add: run_def)
  show ?case
  proof (cases "ev = SafetyTimeout")
    case True
    from Cons.prems(1) have "taskCompleted (step s SafetyTimeout)" by (rule completed_safety)
    with True have "taskCompleted (step s ev)" by simp
    then show ?thesis unfolding r by (rule completed_run)
  next
    case False
    have "settled (step s ev)" using Cons.prems(1) by (rule settled_step)
    moreover from False Cons.prems(2) have "SafetyTimeout \<in> set evs" by simp
    ultimately show ?thesis unfolding r by (rule Cons.IH)
  qed
qed

text \<open>
  Each terminal path, taken from a running monitor, schedules the one completion handler:
  the status \<open>completed\<close> or a reported progress of 100 or more (a completion without
  error), an \<open>error\<close> field, the third exception in a row, and the safety timer.
\<close>

lemma run_snoc: "run (evs @ [ev]) s = step (run evs s) ev"
  by (simp add: run_def)

lemma run_append: "run (evs @ evs') s = run evs' (run evs s)"
  by (simp add: run_def)

lemma status_path:
  assumes "settled s" "\<not> taskCompleted s" "\<not> truthy_err (p_error p)"
    "p_status p = Some ''completed'' \<or> 100 \<le> reported p"
  shows "\<exists>c. completions (step s (Poll (Returned (Obj p)))) = [c] \<and> \<not> c_isError c"
  using assms
  by (auto simp: settled_def tick_def tick_body_def on_progress_def Let_def displayPercent_def
      cleanupAndComplete_def updateProgressBar_def)

lemma error_path:
  assumes "settled s" "\<not> taskCompleted s" "p_error p = Some e" "truthy_err (Some e)"
  shows "completions (step s (Poll (Returned (Obj p)))) =
           [\<lparr> c_message = MsgFetchError e, c_isError = True, c_data = None \<rparr>]"
  using assms
  by (simp add: settled_def tick_def tick_body_def on_progress_def cleanupAndComplete_def
      updateProgressBar_def del: truthy_err.simps)

lemma throw_step:
  assumes "settled s" "\<not> taskCompleted s"
  shows "step s (Poll (Threw a)) =
     (if 2 \<le> consecutiveErrorCount s
      then cleanupAndComplete MsgFetchAborted True None
             (s\<lparr> consecutiveErrorCount := consecutiveErrorCount s + 1 \<rparr>)
      else s\<lparr> consecutiveErrorCount := consecutiveErrorCount s + 1 \<rparr>)"
  using assms by (auto simp: settled_def tick_def tick_body_def on_throw_def Let_def)

lemma aborted_stays:
  assumes "completions s = [\<lparr> c_message = MsgFetchAborted, c_isError = True, c_data = None \<rparr>]"
    "taskCompleted s" "\<not> intervalActive s"
  shows "step s (Poll f) = s"
  using assms by simp

lemma throws_path:
  assumes st: "settled s" and op: "\<not> taskCompleted s"
  shows "completions (run [Poll (Threw a), Poll (Threw b), Poll (Threw c)] s) =
           [\<lparr> c_message = MsgFetchAborted, c_isError = True, c_data = None \<rparr>]"
proof -
  let ?done = "\<lambda>s. completions s = [\<lparr> c_message = MsgFetchAborted, c_isError = True, c_data = None \<rparr>]
                  \<and> taskCompleted s \<and> \<not> intervalActive s"
  have one: "?done (step s (Poll (Threw e))) \<or>
             (settled (step s (Poll (Threw e))) \<and> \<not> taskCompleted (step s (Poll (Threw e))) \<and>
              consecutiveErrorCount (step s (Poll (Threw e))) = consecutiveErrorCount s + 1)"
    if "settled s" "\<not> taskCompleted s" for s e
    using that unfolding throw_step [OF that]
    by (auto simp: settled_def cleanupAndComplete_def updateProgressBar_def)
  have last: "?done (step s (Poll (Threw e)))"
    if "settled s" "\<not> taskCompleted s" "2 \<le> consecutiveErrorCount s" for s e
    using that unfolding throw_step [OF that(1,2)]
    by (auto simp: settled_def cleanupAndComplete_def updateProgressBar_def)
  have keep: "?done (step s (Poll f))" if "?done s" for s f
    using that by simp
  let ?s1 = "step s (Poll (Threw a))"
  let ?s2 = "step ?s1 (Poll (Threw b))"
  let ?s3 = "step ?s2 (Poll (Threw c))"
  have r: "run [Poll (Threw a), Poll (Threw b), Poll (Threw c)] s = ?s3" by (simp add: run_def)
  have "?done ?s3"
  proof (cases "?done ?s1")
    case True
    then have "?done ?s2" by (rule keep)
    then show ?thesis by (rule keep)
  next
    case False
    with one [OF st op, of a]
    have s1: "settled ?s1" "\<not> taskCompleted ?s1" "consecutiveErrorCount ?s1 = consecutiveErrorCount s + 1"
      by blast+
    show ?thesis
    proof (cases "?done ?s2")
      case True
      then show ?thesis by (rule keep)
    next
      case False
      with one [OF s1(1,2), of b]
      have s2: "settled ?s2" "\<not> taskCompleted ?s2" "consecutiveErrorCount ?s2 = consecutiveErrorCount ?s1 + 1"
        by blast+
      with s1(3) have "2 \<le> consecutiveErrorCount ?s2" by simp
      with s2 show ?thesis by (intro last)
    qed
  qed
  then show ?thesis unfolding r by blast
qed

lemma safety_path:
  assumes "settled s" "\<not> taskCompleted s"
  shows "completions (step s SafetyTimeout) =
           [\<lparr> c_message = MsgDone, c_isError = False, c_data = None \<rparr>]"
  using assms
  by (auto simp: settled_def safety_timeout_def cleanupAndComplete_def updateProgressBar_def)

text \<open>
  Claim C1. Whatever the event loop delivers to a monitor (ticks, late continuations of
  ticks, the safety timer, in any order), at most one completion handler is ever scheduled,
  so \<open>onComplete\<close> runs at most once; exactly one is scheduled as soon as the monitor is
  completed, and both timers are cancelled then. From every state a monitor can reach
  without being completed, each terminal path schedules exactly one completion: a response
  with status \<open>completed\<close> or a progress of 100 or more, a response with an \<open>error\<close> field,
  three exceptions of the fetch in a row, and the safety timer, which therefore ends every
  monitor that nothing else has ended.
\<close>

theorem onComplete_exactly_once:
  "length (completions (run evs monitorTaskProgress)) \<le> 1 \<and>
   (taskCompleted (run evs monitorTaskProgress) \<longleftrightarrow>
      length (completions (run evs monitorTaskProgress)) = 1) \<and>
   (taskCompleted (run evs monitorTaskProgress) \<longrightarrow>
      \<not> intervalActive (run evs monitorTaskProgress) \<and>
      \<not> safetyActive (run evs monitorTaskProgress)) \<and>
   (SafetyTimeout \<in> set evs \<longrightarrow> taskCompleted (run evs monitorTaskProgress)) \<and>
   (\<not> taskCompleted (run evs monitorTaskProgress) \<longrightarrow>
      (\<forall>p. \<not> truthy_err (p_error p) \<and> (p_status p = Some ''completed'' \<or> 100 \<le> reported p) \<longrightarrow>
         (\<exists>c. completions (run (evs @ [Poll (Returned (Obj p))]) monitorTaskProgress) = [c] \<and>
              \<not> c_isError c)) \<and>
      (\<forall>p e. p_error p = Some e \<and> truthy_err (Some e) \<longrightarrow>
         completions (run (evs @ [Poll (Returned (Obj p))]) monitorTaskProgress) =
           [\<lparr> c_message = MsgFetchError e, c_isError = True, c_data = None \<rparr>]) \<and>
      (\<forall>a b c.
         completions (run (evs @ [Poll (Threw a), Poll (Threw b), Poll (Threw c)])
                        monitorTaskProgress) =
           [\<lparr> c_message = MsgFetchAborted, c_isError = True, c_data = None \<rparr>]) \<and>
      completions (run (evs @ [SafetyTimeout]) monitorTaskProgress) =
        [\<lparr> c_message = MsgDone, c_isError = False, c_data = None \<rparr>])"
proof -
  let ?s = "run evs monitorTaskProgress"
  have s: "settled ?s"
    using settled_init by (rule settled_run)
  have t: "SafetyTimeout \<in> set evs \<longrightarrow> taskCompleted ?s"
    using safety_forces_completion [OF settled_init] by blast
  have base: "length (completions ?s) \<le> 1 \<and>
      (taskCompleted ?s \<longleftrightarrow> length (completions ?s) = 1) \<and>
      (taskCompleted ?s \<longrightarrow> \<not> intervalActive ?s \<and> \<not> safetyActive ?s)"
    using s by (auto simp: settled_def split: if_splits)
  have paths: "(\<forall>p. \<not> truthy_err (p_error p) \<and> (p_status p = Some ''completed'' \<or> 100 \<le> reported p) \<longrightarrow>
         (\<exists>c. completions (run (evs @ [Poll (Returned (Obj p))]) monitorTaskProgress) = [c] \<and>
              \<not> c_isError c)) \<and>
      (\<forall>p e. p_error p = Some e \<and> truthy_err (Some e) \<longrightarrow>
         completions (run (evs @ [Poll (Returned (Obj p))]) monitorTaskProgress) =
           [\<lparr> c_message = MsgFetchError e, c_isError = True, c_data = None \<rparr>]) \<and>
      (\<forall>a b c.
         completions (run (evs @ [Poll (Threw a), Poll (Threw b), Poll (Threw c)])
                        monitorTaskProgress) =
           [\<lparr> c_message = MsgFetchAborted, c_isError = True, c_data = None \<rparr>]) \<and>
      completions (run (evs @ [SafetyTimeout]) monitorTaskProgress) =
        [\<lparr> c_message = MsgDone, c_isError = False, c_data = None \<rparr>]"
    if op: "\<not> taskCompleted ?s"
  proof (intro conjI allI impI)
    fix p :: progress_obj
    assume "\<not> truthy_err (p_error p) \<and> (p_status p = Some ''completed'' \<or> 100 \<le> reported p)"
    then show "\<exists>c. completions (run (evs @ [Poll (Returned (Obj p))]) monitorTaskProgress) = [c] \<and>
              \<not> c_isError c"
      unfolding run_snoc using status_path [OF s op, of p] by blast
  next
    fix p :: progress_obj and e
    assume "p_error p = Some e \<and> truthy_err (Some e)"
    then show "completions (run (evs @ [Poll (Returned (Obj p))]) monitorTaskProgress) =
           [\<lparr> c_message = MsgFetchError e, c_isError = True, c_data = None \<rparr>]"
      unfolding run_snoc using error_path [OF s op, of p e] by blast
  next
    fix a b c
    show "completions (run (evs @ [Poll (Threw a), Poll (Threw b), Poll (Threw c)])
                        monitorTaskProgress) =
           [\<lparr> c_message = MsgFetchAborted, c_isError = True, c_data = None \<rparr>]"
      unfolding run_append using s op by (rule throws_path)
  next
    show "completions (run (evs @ [SafetyTimeout]) monitorTaskProgress) =
        [\<lparr> c_message = MsgDone, c_isError = False, c_data = None \<rparr>]"
      unfolding run_snoc using s op by (rule safety_path)
  qed
  from base t paths show ?thesis by blast
qed

theorem onComplete_exactly_once_witness:
  "\<not> taskCompleted (run [Poll (Returned (Obj (report 50 ''running'')))] monitorTaskProgress) \<and>
   completions (run ([Poll (Returned (Obj (report 50 ''running'')))] @
                     [Poll (Returned (Obj (error_object (HttpFailure 500))))])
                  monitorTaskProgress) =
     [\<lparr> c_message = MsgFetchError (HttpFailure 500), c_isError = True, c_data = None \<rparr>] \<and>
   completions (run ([Poll (Returned (Obj (report 50 ''running'')))] @
                     [Poll (Threw ''a''), Poll (Threw ''b''), Poll (Threw ''c'')])
                  monitorTaskProgress) =
     [\<lparr> c_message = MsgFetchAborted, c_isError = True, c_data = None \<rparr>] \<and>
   completions (run ([Poll (Returned (Obj (report 50 ''running'')))] @ [SafetyTimeout])
                  monitorTaskProgress) =
     [\<lparr> c_message = MsgDone, c_isError = False, c_data = None \<rparr>] \<and>
   completions (run ([Poll (Returned (Obj (report 50 ''running'')))] @
                     [Poll (Returned (Obj (report 60 ''completed'')))])
                  monitorTaskProgress) =
     [\<lparr> c_message = MsgDone, c_isError = False, c_data = Some (report 60 ''completed'') \<rparr>] \<and>
   SafetyTimeout \<in> set [Poll (Returned (Obj (report 100 ''running''))), SafetyTimeout,
                         Late (Returned (Obj (report 100 ''completed'')))] \<and>
   taskCompleted (run [Poll (Returned (Obj (report 100 ''running''))), SafetyTimeout,
                       Late (Returned (Obj (report 100 ''completed'')))] monitorTaskProgress) \<and>
   length (completions (run [Poll (Returned (Obj (report 100 ''running''))), SafetyTimeout,
                       Late (Returned (Obj (report 100 ''completed'')))] monitorTaskProgress)) = 1 \<and>
   \<not> intervalActive (run [Poll (Returned (Obj (report 100 ''running''))), SafetyTimeout,
                       Late (Returned (Obj (report 100 ''completed'')))] monitorTaskProgress) \<and>
   \<not> safetyActive (run [Poll (Returned (Obj (report 100 ''running''))), SafetyTimeout,
                       Late (Returned (Obj (report 100 ''completed'')))] monitorTaskProgress)"
proof -
  let ?e1 = "[Poll (Returned (Obj (report 50 ''running'')))]"
  let ?e2 = "[Poll (Returned (Obj (report 100 ''running''))), SafetyTimeout,
              Late (Returned (Obj (report 100 ''completed'')))]"
  have op: "\<not> taskCompleted (run ?e1 monitorTaskProgress)"
    by (simp add: run_def tick_def tick_body_def on_progress_def displayPercent_def reported_def
        report_def monitorTaskProgress_def updateProgressBar_def Let_def)
  have er: "p_error (error_object (HttpFailure 500)) = Some (HttpFailure 500) \<and>
            truthy_err (Some (HttpFailure 500))"
    by (simp add: error_object_def)
  have m: "SafetyTimeout \<in> set ?e2" by simp
  have st: "completions (run (?e1 @ [Poll (Returned (Obj (report 60 ''completed'')))])
                  monitorTaskProgress) =
     [\<lparr> c_message = MsgDone, c_isError = False, c_data = Some (report 60 ''completed'') \<rparr>]"
    by (simp add: run_def tick_def tick_body_def on_progress_def displayPercent_def reported_def
        report_def monitorTaskProgress_def updateProgressBar_def cleanupAndComplete_def Let_def)
  note i1 = onComplete_exactly_once [of ?e1]
  note i2 = onComplete_exactly_once [of ?e2]
  from i1 op er have a: "completions (run (?e1 @
                     [Poll (Returned (Obj (error_object (HttpFailure 500))))])
                  monitorTaskProgress) =
     [\<lparr> c_message = MsgFetchError (HttpFailure 500), c_isError = True, c_data = None \<rparr>]"
    by blast
  from i1 op have b: "completions (run (?e1 @
                     [Poll (Threw ''a''), Poll (Threw ''b''), Poll (Threw ''c'')])
                  monitorTaskProgress) =
     [\<lparr> c_message = MsgFetchAborted, c_isError = True, c_data = None \<rparr>]"
    by blast
  from i1 op have c: "completions (run (?e1 @ [SafetyTimeout]) monitorTaskProgress) =
     [\<lparr> c_message = MsgDone, c_isError = False, c_data = None \<rparr>]"
    by blast
  from i2 m have d: "taskCompleted (run ?e2 monitorTaskProgress)" by blast
  with i2 have e: "length (completions (run ?e2 monitorTaskProgress)) = 1"
    "\<not> intervalActive (run ?e2 monitorTaskProgress)" "\<not> safetyActive (run ?e2 monitorTaskProgress)"
    by blast+
  show ?thesis by (intro conjI) (fact op a b c st m d e)+
qed


subsection \<open>Displayed progress\<close>

lemma safePercent_mono: "a \<le> b \<Longrightarrow> safePercent a \<le> safePercent b"
  by (simp add: safePercent_def)

lemma safePercent_le_100: "safePercent a \<le> safePercent 100"
  by (simp add: safePercent_def)

lemma sorted_snoc_bar:
  "sorted (map (safePercent \<circ> fst) cs) \<Longrightarrow> \<forall>c \<in> set cs. safePercent (fst c) \<le> safePercent d
   \<Longrightarrow> sorted (map (safePercent \<circ> fst) (cs @ [(d, m)]))"
  by (simp add: sorted_append)

lemma steady_cleanup: "bar_steady s \<Longrightarrow> bar_steady (cleanupAndComplete m e d s)"
  by (auto simp: bar_steady_def cleanupAndComplete_def updateProgressBar_def sorted_append
      safePercent_le_100)

lemma steady_count:
  "bar_steady (s\<lparr> consecutiveErrorCount := c \<rparr>) = bar_steady s"
  "bar_steady (s\<lparr> stagnantCount := n \<rparr>) = bar_steady s"
  by (simp_all add: bar_steady_def)

lemma steady_on_throw: "bar_steady s \<Longrightarrow> bar_steady (on_throw s)"
  by (simp add: on_throw_def Let_def steady_cleanup steady_count)

lemma steady_on_empty: "bar_steady s \<Longrightarrow> bar_steady (on_empty s)"
  by (simp add: on_empty_def Let_def steady_cleanup steady_count)

lemma steady_show:
  assumes "bar_steady s" "\<not> taskCompleted s"
  shows "bar_steady (updateProgressBar (displayPercent p s) m
           (if reported p < lastProgressPercent s then s
            else s\<lparr> lastProgressPercent := reported p \<rparr>))"
  using assms
  by (auto simp: bar_steady_def updateProgressBar_def displayPercent_def sorted_append
      intro!: safePercent_mono)

lemma steady_again:
  assumes "bar_steady s" "\<not> taskCompleted s" "d = lastProgressPercent s"
  shows "bar_steady (updateProgressBar d m s)"
  using assms
  by (auto simp: bar_steady_def updateProgressBar_def sorted_append intro!: safePercent_mono)


lemma last_after_show:
  "lastProgressPercent (updateProgressBar (displayPercent p s) m
           (if reported p < lastProgressPercent s then s
            else s\<lparr> lastProgressPercent := reported p \<rparr>)) = displayPercent p s"
  by (simp add: updateProgressBar_def displayPercent_def)

lemma open_after_show:
  "taskCompleted (updateProgressBar d m
           (if reported p < lastProgressPercent s then s
            else s\<lparr> lastProgressPercent := reported p \<rparr>)) = taskCompleted s"
  by (simp add: updateProgressBar_def)

lemma steady_on_progress:
  assumes st: "bar_steady s" and op: "\<not> taskCompleted s"
  shows "bar_steady (on_progress p s)"
proof (cases "truthy_err (p_error p)")
  case True
  then show ?thesis using st
    by (simp add: on_progress_def steady_cleanup split: option.splits)
next
  case False
  define s2 where "s2 = updateProgressBar (displayPercent p s) (bar_message (p_message p))
           (if reported p < lastProgressPercent s then s
            else s\<lparr> lastProgressPercent := reported p \<rparr>)"
  have b2: "bar_steady s2" unfolding s2_def using st op by (rule steady_show)
  have l2: "lastProgressPercent s2 = displayPercent p s" unfolding s2_def by (rule last_after_show)
  have o2: "\<not> taskCompleted s2" unfolding s2_def using op by (simp add: open_after_show)
  define s3 where "s3 = s2\<lparr> stagnantCount := stagnantCount s2 + 1 \<rparr>"
  have b3: "bar_steady s3" unfolding s3_def using b2 by (simp add: steady_count)
  have l3: "displayPercent p s = lastProgressPercent s3" unfolding s3_def using l2 by simp
  have o3: "\<not> taskCompleted s3" unfolding s3_def using o2 by simp
  have b4: "bar_steady (updateProgressBar (displayPercent p s) m s3)" for m
    using b3 o3 l3 by (rule steady_again)
  have eq: "on_progress p s =
     (if displayPercent p s = 100 \<and> stagnantCount s3 > 2
      then cleanupAndComplete MsgDone False None s3
      else
        let s4 = (if stagnantCount s3 > 10 \<and> displayPercent p s < 100
                  then updateProgressBar (displayPercent p s)
                         (Some (MsgAdvisory (message_or (p_message p) MsgWorking))) s3
                  else s3)
        in if p_status p = Some ''completed'' \<or> displayPercent p s \<ge> 100
           then cleanupAndComplete (message_or (p_message p) MsgDone) False (Some p) s4
           else s4)"
    using False l2 unfolding on_progress_def s3_def s2_def by (simp add: Let_def)
  show ?thesis unfolding eq using b3 b4 by (simp add: Let_def steady_cleanup)
qed

lemma steady_tick_body:
  "bar_steady s \<Longrightarrow> \<not> taskCompleted s \<Longrightarrow> bar_steady (tick_body f s)"
  by (simp add: tick_body_def Let_def steady_on_throw steady_on_empty steady_on_progress
      steady_count split: fetched.splits response.splits)

lemma steady_step: "bar_steady s \<Longrightarrow> sequential ev \<Longrightarrow> bar_steady (step s ev)"
proof (cases ev)
  case (Poll f)
  assume "bar_steady s"
  then show ?thesis using Poll
    by (auto simp: tick_def steady_tick_body) (auto simp: bar_steady_def)
next
  case (Late f)
  assume "sequential ev"
  then show ?thesis using Late by simp
next
  case SafetyTimeout
  assume a: "bar_steady s"
  then have "bar_steady (s\<lparr> safetyActive := False \<rparr>)" by (simp add: bar_steady_def)
  then show ?thesis using SafetyTimeout a by (simp add: safety_timeout_def steady_cleanup)
qed

lemma steady_run: "bar_steady s \<Longrightarrow> list_all sequential evs \<Longrightarrow> bar_steady (run evs s)"
  unfolding run_def by (induction evs arbitrary: s) (simp_all add: steady_step)

lemma steady_init: "bar_steady monitorTaskProgress"
  by (simp add: bar_steady_def monitorTaskProgress_def)

lemma on_progress_shows:
  assumes "\<not> truthy_err (p_error p)"
  shows "\<exists>rest. barCalls (on_progress p s) =
           barCalls s @ (displayPercent p s, bar_message (p_message p)) # rest"
  using assms
  by (auto simp: on_progress_def Let_def cleanupAndComplete_def updateProgressBar_def)

lemma on_progress_last:
  assumes "\<not> truthy_err (p_error p)"
  shows "lastProgressPercent (on_progress p s) = displayPercent p s"
  using assms
  by (auto simp: on_progress_def Let_def cleanupAndComplete_def updateProgressBar_def
      displayPercent_def)

lemma reported_case: "reported p = (case p_progress p of None \<Rightarrow> 0 | Some n \<Rightarrow> n)"
  by (simp add: reported_def)

lemma display_max: "displayPercent p s = max (lastProgressPercent s) (reported p)"
  by (simp add: displayPercent_def)

lemma tick_body_last:
  "\<not> truthy_err (p_error p) \<Longrightarrow>
   lastProgressPercent (tick_body (Returned (Obj p)) s) = max (lastProgressPercent s) (reported p)"
  using on_progress_last [of p "s\<lparr> consecutiveErrorCount := 0 \<rparr>"]
  by (simp add: tick_body_def displayPercent_def)

lemma last_cleanup: "lastProgressPercent (cleanupAndComplete m e d s) = lastProgressPercent s"
  by (simp add: cleanupAndComplete_def updateProgressBar_def)

lemma last_on_progress: "lastProgressPercent s \<le> lastProgressPercent (on_progress p s)"
proof (cases "truthy_err (p_error p)")
  case True
  then show ?thesis by (simp add: on_progress_def last_cleanup split: option.splits)
next
  case False
  then show ?thesis by (simp add: on_progress_last displayPercent_def)
qed

lemma last_tick_body: "lastProgressPercent s \<le> lastProgressPercent (tick_body f s)"
  using last_on_progress [of "s\<lparr> consecutiveErrorCount := 0 \<rparr>"]
  by (simp add: tick_body_def on_throw_def on_empty_def Let_def last_cleanup
      split: fetched.splits response.splits)

lemma last_step: "lastProgressPercent s \<le> lastProgressPercent (step s ev)"
  by (cases ev) (simp_all add: tick_def last_tick_body safety_timeout_def last_cleanup)

lemma running_tick_completes:
  assumes "\<not> taskCompleted s" "\<not> truthy_err (p_error p)"
  shows "taskCompleted (tick (Returned (Obj p)) s) \<longleftrightarrow>
           p_status p = Some ''completed'' \<or> 100 \<le> max (lastProgressPercent s) (reported p)"
  using assms
  by (auto simp: tick_def tick_body_def on_progress_def Let_def displayPercent_def
      cleanupAndComplete_def updateProgressBar_def)

lemma running_tick_shows:
  assumes "\<not> taskCompleted s" "\<not> truthy_err (p_error p)"
  shows "map fst (drop (length (barCalls s)) (barCalls (tick (Returned (Obj p)) s))) =
           replicate (if 10 \<le> stagnantCount s \<and> max (lastProgressPercent s) (reported p) < 100
                      then 2 else 1)
                     (max (lastProgressPercent s) (reported p)) @
           (if taskCompleted (tick (Returned (Obj p)) s) then [100] else [])"
  using assms
  by (auto simp: tick_def tick_body_def on_progress_def Let_def displayPercent_def
      cleanupAndComplete_def updateProgressBar_def numeral_2_eq_2)

lemma safePercent_id: "0 \<le> x \<Longrightarrow> x \<le> 100 \<Longrightarrow> safePercent x = x"
  by (simp add: safePercent_def)

text \<open>
  Claim C2, amended. A tick that processes a progress report computes
  \<open>max (previous value) (reported value)\<close>, the reported value being \<open>progress.progress\<close> or
  0, and keeps it as the new previous value. On a running monitor the tick shows exactly
  that value (twice when the stagnation advisory is due); it completes the monitor exactly
  when the status is \<open>completed\<close> or the value is 100 or more, and the completion then sets
  the bar to 100. The bar shows a value between 0 and 100 as it is. The value the ticks
  compute never decreases, whatever the order of events; and when every tick settles before
  the next event, the percentages the bar shows never decrease.
\<close>

theorem displayed_progress_is_running_max:
  "(\<not> truthy_err (p_error p) \<longrightarrow>
      lastProgressPercent (tick_body (Returned (Obj p)) s) =
        max (lastProgressPercent s) (case p_progress p of None \<Rightarrow> 0 | Some n \<Rightarrow> n)) \<and>
   (\<not> taskCompleted s \<and> \<not> truthy_err (p_error p) \<longrightarrow>
      (taskCompleted (tick (Returned (Obj p)) s) \<longleftrightarrow>
         p_status p = Some ''completed'' \<or> 100 \<le> max (lastProgressPercent s) (reported p)) \<and>
      map fst (drop (length (barCalls s)) (barCalls (tick (Returned (Obj p)) s))) =
        replicate (if 10 \<le> stagnantCount s \<and> max (lastProgressPercent s) (reported p) < 100
                   then 2 else 1)
                  (max (lastProgressPercent s) (reported p)) @
        (if taskCompleted (tick (Returned (Obj p)) s) then [100] else [])) \<and>
   (0 \<le> x \<and> x \<le> 100 \<longrightarrow> safePercent x = x) \<and>
   lastProgressPercent s \<le> lastProgressPercent (step s ev) \<and>
   (list_all sequential evs \<longrightarrow>
      sorted (map (safePercent \<circ> fst) (barCalls (run evs monitorTaskProgress))))"
proof -
  have a: "\<not> truthy_err (p_error p) \<longrightarrow>
      lastProgressPercent (tick_body (Returned (Obj p)) s) =
        max (lastProgressPercent s) (case p_progress p of None \<Rightarrow> 0 | Some n \<Rightarrow> n)"
    using tick_body_last [of p s] by (simp only: reported_case) blast
  have b: "\<not> taskCompleted s \<and> \<not> truthy_err (p_error p) \<longrightarrow>
      (taskCompleted (tick (Returned (Obj p)) s) \<longleftrightarrow>
         p_status p = Some ''completed'' \<or> 100 \<le> max (lastProgressPercent s) (reported p)) \<and>
      map fst (drop (length (barCalls s)) (barCalls (tick (Returned (Obj p)) s))) =
        replicate (if 10 \<le> stagnantCount s \<and> max (lastProgressPercent s) (reported p) < 100
                   then 2 else 1)
                  (max (lastProgressPercent s) (reported p)) @
        (if taskCompleted (tick (Returned (Obj p)) s) then [100] else [])"
    using running_tick_completes [of s p] running_tick_shows [of s p] by blast
  have c: "0 \<le> x \<and> x \<le> 100 \<longrightarrow> safePercent x = x"
    using safePercent_id [of x] by blast
  have d: "lastProgressPercent s \<le> lastProgressPercent (step s ev)" by (rule last_step)
  have e: "list_all sequential evs \<longrightarrow>
      sorted (map (safePercent \<circ> fst) (barCalls (run evs monitorTaskProgress)))"
  proof
    assume "list_all sequential evs"
    with steady_init have "bar_steady (run evs monitorTaskProgress)" by (rule steady_run)
    then show "sorted (map (safePercent \<circ> fst) (barCalls (run evs monitorTaskProgress)))"
      by (simp add: bar_steady_def)
  qed
  show ?thesis by (intro conjI) (fact a b c d e)+
qed

theorem displayed_progress_is_running_max_witness:
  "\<not> truthy_err (p_error (report 20 ''running'')) \<and>
   \<not> taskCompleted (monitorTaskProgress\<lparr> lastProgressPercent := 30 \<rparr>) \<and>
   lastProgressPercent (tick_body (Returned (Obj (report 20 ''running'')))
      (monitorTaskProgress\<lparr> lastProgressPercent := 30 \<rparr>)) = 30 \<and>
   \<not> taskCompleted (tick (Returned (Obj (report 20 ''running'')))
      (monitorTaskProgress\<lparr> lastProgressPercent := 30 \<rparr>)) \<and>
   map fst (drop (length (barCalls (monitorTaskProgress\<lparr> lastProgressPercent := 30 \<rparr>)))
      (barCalls (tick (Returned (Obj (report 20 ''running'')))
         (monitorTaskProgress\<lparr> lastProgressPercent := 30 \<rparr>)))) = [30] \<and>
   safePercent 30 = 30 \<and>
   list_all sequential [Poll (Returned (Obj (report 10 ''running''))),
                        Poll (Returned (Obj (report 30 ''running''))),
                        Poll (Returned (Obj (report 20 ''running''))),
                        Poll (Returned (Obj (report 100 ''running''))), SafetyTimeout] \<and>
   sorted (map (safePercent \<circ> fst) (barCalls (run
                       [Poll (Returned (Obj (report 10 ''running''))),
                        Poll (Returned (Obj (report 30 ''running''))),
                        Poll (Returned (Obj (report 20 ''running''))),
                        Poll (Returned (Obj (report 100 ''running''))), SafetyTimeout]
                       monitorTaskProgress))) \<and>
   map (safePercent \<circ> fst) (barCalls (run
                       [Poll (Returned (Obj (report 10 ''running''))),
                        Poll (Returned (Obj (report 30 ''running''))),
                        Poll (Returned (Obj (report 20 ''running''))),
                        Poll (Returned (Obj (report 100 ''running''))), SafetyTimeout]
                       monitorTaskProgress)) = [10, 30, 30, 100, 100]"
proof -
  let ?s = "monitorTaskProgress\<lparr> lastProgressPercent := 30 \<rparr>"
  let ?p = "report 20 ''running''"
  let ?evs = "[Poll (Returned (Obj (report 10 ''running''))),
               Poll (Returned (Obj (report 30 ''running''))),
               Poll (Returned (Obj (report 20 ''running''))),
               Poll (Returned (Obj (report 100 ''running''))), SafetyTimeout]"
  have h1: "\<not> truthy_err (p_error ?p)" by (simp add: report_def)
  have h2: "\<not> taskCompleted ?s" by (simp add: monitorTaskProgress_def)
  have h3: "list_all sequential ?evs" by simp
  have v: "p_progress ?p = Some 20" "p_status ?p = Some ''running''" "reported ?p = 20"
    "lastProgressPercent ?s = 30" "stagnantCount ?s = 0"
    by (simp_all add: report_def reported_def monitorTaskProgress_def)
  note inst = displayed_progress_is_running_max [of ?p ?s 30 SafetyTimeout ?evs]
  from inst h1 have a: "lastProgressPercent (tick_body (Returned (Obj ?p)) ?s) = 30"
    by (simp add: v)
  from inst h1 h2 have b: "\<not> taskCompleted (tick (Returned (Obj ?p)) ?s)"
    by (simp add: v)
  from inst h1 h2 b have c: "map fst (drop (length (barCalls ?s))
      (barCalls (tick (Returned (Obj ?p)) ?s))) = [30]"
    by (simp add: v)
  from inst have d: "safePercent 30 = 30" by simp
  from inst h3 have e: "sorted (map (safePercent \<circ> fst) (barCalls (run ?evs monitorTaskProgress)))"
    by blast
  have f: "map (safePercent \<circ> fst) (barCalls (run ?evs monitorTaskProgress)) =
             [10, 30, 30, 100, 100]"
    by (simp add: run_def tick_def tick_body_def on_progress_def displayPercent_def reported_def
        report_def monitorTaskProgress_def updateProgressBar_def cleanupAndComplete_def Let_def
        safePercent_def)
  show ?thesis by (intro conjI) (fact h1 h2 a b c d h3 e f)+
qed

text \<open>
  Claim C2 as stated (after each tick the bar shows the maximum of the previous value and
  the reported one, and never goes back) fails: a tick that reports 40 with the status
  \<open>completed\<close> shows 40 and then 100, where the maximum is 40; and when a fetch settles
  after the safety timer has completed the monitor, its report of 50 takes the bar from 100
  back to 50.
\<close>

theorem completing_tick_shows_100:
  "map fst (barCalls (tick (Returned (Obj (report 40 ''completed''))) monitorTaskProgress)) =
     [40, 100] \<and>
   max (lastProgressPercent monitorTaskProgress) (reported (report 40 ''completed'')) = 40 \<and>
   map (safePercent \<circ> fst) (barCalls (run
      [SafetyTimeout, Late (Returned (Obj (report 50 ''running'')))] monitorTaskProgress)) =
     [100, 50]"
  by (simp add: run_def tick_def tick_body_def on_progress_def displayPercent_def reported_def
      report_def monitorTaskProgress_def updateProgressBar_def cleanupAndComplete_def Let_def
      safePercent_def safety_timeout_def)

text \<open>
  The reports 10, 30, 20, 100 are shown as 10, 30, 30, 100 (and the final 100). The fourth
  tick ends the monitor on the branch for a stagnant 100, which passes no progress data on.
\<close>

lemma progress_example:
  "map fst (barCalls (polls (map (\<lambda>n. Returned (Obj (report n ''running''))) [10, 30, 20, 100])
      monitorTaskProgress)) = [10, 30, 30, 100, 100] \<and>
   completions (polls (map (\<lambda>n. Returned (Obj (report n ''running''))) [10, 30, 20, 100])
      monitorTaskProgress) = [\<lparr> c_message = MsgDone, c_isError = False, c_data = None \<rparr>]"
  by (simp add: polls_def tick_def tick_body_def on_progress_def displayPercent_def reported_def
      report_def monitorTaskProgress_def updateProgressBar_def cleanupAndComplete_def Let_def)

subsection \<open>Stagnation counter\<close>

text \<open>
  The comparison \<open>displayPercent === lastProgressPercent\<close> runs after
  \<open>lastProgressPercent\<close> has been brought up to \<open>displayPercent\<close>, so it always succeeds.
\<close>

lemma stagnant_every_report:
  "\<not> truthy_err (p_error p) \<Longrightarrow> stagnantCount (on_progress p s) = stagnantCount s + 1"
  by (auto simp: on_progress_def Let_def cleanupAndComplete_def updateProgressBar_def
      displayPercent_def)

text \<open>
  Claim C3 (stagnantCount is incremented only when the displayed progress is unchanged and
  reset to 0 when it changed) does not hold of the code: after the reports 10 and 30, which
  change the displayed progress twice, the counter is 2.
\<close>

theorem stagnantCount_grows_although_progress_changes:
  "stagnantCount (polls [Returned (Obj (report 10 ''running'')),
                         Returned (Obj (report 30 ''running''))] monitorTaskProgress) = 2 \<and>
   map fst (barCalls (polls [Returned (Obj (report 10 ''running'')),
                         Returned (Obj (report 30 ''running''))] monitorTaskProgress)) = [10, 30]"
  by (simp add: polls_def tick_def tick_body_def on_progress_def displayPercent_def reported_def
      report_def monitorTaskProgress_def updateProgressBar_def cleanupAndComplete_def Let_def)

subsection \<open>Consecutive fetch failures\<close>

text \<open>An empty response always leaves the counter at 1: it is reset before it is incremented.\<close>

lemma empty_response_count:
  "r = Undefined \<or> r = Null \<Longrightarrow>
   tick_body (Returned r) s = s\<lparr> consecutiveErrorCount := 1 \<rparr>"
  by (auto simp: tick_body_def on_empty_def Let_def)

text \<open>
  Claim C4 (three consecutive fetch failures, thrown or empty, end the monitor with an error)
  does not hold of the code for empty responses: after three of them the counter is 1 and the
  monitor still polls, and an empty response after two exceptions resets the count as well;
  three exceptions in a row do end the monitor.
\<close>

theorem empty_responses_never_reach_three:
  "consecutiveErrorCount (polls [Returned Undefined, Returned Undefined, Returned Undefined]
      monitorTaskProgress) = 1 \<and>
   \<not> taskCompleted (polls [Returned Undefined, Returned Undefined, Returned Undefined]
      monitorTaskProgress) \<and>
   completions (polls [Returned Undefined, Returned Undefined, Returned Undefined]
      monitorTaskProgress) = [] \<and>
   \<not> taskCompleted (polls [Threw ''timeout'', Threw ''timeout'', Returned Null]
      monitorTaskProgress) \<and>
   completions (polls [Threw ''timeout'', Threw ''timeout'', Threw ''timeout'']
      monitorTaskProgress) = [\<lparr> c_message = MsgFetchAborted, c_isError = True, c_data = None \<rparr>]"
  by (simp add: polls_def tick_def tick_body_def on_empty_def on_throw_def
      monitorTaskProgress_def updateProgressBar_def cleanupAndComplete_def Let_def)

subsection \<open>The monitor with the production fetcher\<close>

lemma getTaskProgress_returns: "\<exists>r. getTaskProgress fr = Returned r \<and> r \<noteq> Undefined"
proof (cases "request_progress fr")
  case (Inl e)
  then show ?thesis by (simp add: getTaskProgress_def)
next
  case (Inr r)
  then have "r \<noteq> Undefined"
    by (cases fr) (auto split: if_splits body.splits json.splits elim: of_json.elims)
  with Inr show ?thesis by (simp add: getTaskProgress_def)
qed

lemma getTaskProgress_failed:
  "request_progress fr = Inl e \<Longrightarrow> getTaskProgress fr = Returned (Obj (error_object e))"
  by (simp add: getTaskProgress_def)

lemma explicit_error_tick:
  assumes "truthy_err (Some e)" "\<not> taskCompleted s"
  shows "tick (Returned (Obj (error_object e))) s =
         cleanupAndComplete (MsgFetchError e) True None (s\<lparr> consecutiveErrorCount := 0 \<rparr>)"
  using assms by (simp add: tick_def tick_body_def on_progress_def error_object_def)

lemma count_on_progress: "consecutiveErrorCount (on_progress p s) = consecutiveErrorCount s"
  by (auto simp: on_progress_def Let_def cleanupAndComplete_def updateProgressBar_def
      split: option.splits)

lemma message_or_plain:
  "message_or m MsgDone \<noteq> MsgFetchAborted \<and> message_or m MsgDone \<noteq> MsgNoProgress"
  by (cases m) auto

lemma retry_free_cleanup:
  "retry_free s \<Longrightarrow> m \<noteq> MsgFetchAborted \<Longrightarrow> m \<noteq> MsgNoProgress
   \<Longrightarrow> retry_free (cleanupAndComplete m e d s)"
  by (auto simp: retry_free_def cleanupAndComplete_def updateProgressBar_def)

lemma retry_free_fields:
  "retry_free (s\<lparr> consecutiveErrorCount := c \<rparr>) = retry_free s"
  "retry_free (s\<lparr> stagnantCount := n \<rparr>) = retry_free s"
  "retry_free (s\<lparr> lastProgressPercent := l \<rparr>) = retry_free s"
  "retry_free (s\<lparr> intervalActive := b \<rparr>) = retry_free s"
  "retry_free (updateProgressBar q msg s) = retry_free s"
  by (simp_all add: retry_free_def updateProgressBar_def)

lemma retry_free_on_progress: "retry_free s \<Longrightarrow> retry_free (on_progress p s)"
  by (simp add: on_progress_def Let_def retry_free_cleanup retry_free_fields message_or_plain
      split: option.splits)

lemma quiet_poll:
  assumes "consecutiveErrorCount s \<le> 1" "retry_free s"
  shows "consecutiveErrorCount (step s (Poll (getTaskProgress fr))) \<le> 1 \<and>
         retry_free (step s (Poll (getTaskProgress fr)))"
proof -
  obtain r where r: "getTaskProgress fr = Returned r" "r \<noteq> Undefined"
    using getTaskProgress_returns by blast
  show ?thesis
  proof (cases r)
    case Undefined
    with r show ?thesis by simp
  next
    case Null
    with r assms show ?thesis
      by (simp add: tick_def empty_response_count retry_free_fields)
  next
    case (Obj p)
    with r assms show ?thesis
      by (simp add: tick_def tick_body_def count_on_progress retry_free_on_progress
          retry_free_fields)
  qed
qed

lemma silent_poll:
  assumes "consecutiveErrorCount s = 0" "getTaskProgress fr \<noteq> Returned Null"
  shows "consecutiveErrorCount (step s (Poll (getTaskProgress fr))) = 0"
proof -
  obtain r where r: "getTaskProgress fr = Returned r" "r \<noteq> Undefined"
    using getTaskProgress_returns by blast
  with assms(2) obtain p where "r = Obj p" by (cases r) auto
  with r assms(1) show ?thesis by (simp add: tick_def tick_body_def count_on_progress)
qed

lemma polls_Cons: "polls (f # fs) s = polls fs (step s (Poll f))"
  by (simp add: polls_def)

lemma quiet_polls:
  "consecutiveErrorCount s \<le> 1 \<Longrightarrow> retry_free s \<Longrightarrow>
   consecutiveErrorCount (polls (map getTaskProgress frs) s) \<le> 1 \<and>
   retry_free (polls (map getTaskProgress frs) s)"
proof (induction frs arbitrary: s)
  case Nil
  then show ?case by (simp add: polls_def)
next
  case (Cons fr frs)
  have "consecutiveErrorCount (step s (Poll (getTaskProgress fr))) \<le> 1 \<and>
        retry_free (step s (Poll (getTaskProgress fr)))"
    using Cons.prems by (rule quiet_poll)
  then have "consecutiveErrorCount
               (polls (map getTaskProgress frs) (step s (Poll (getTaskProgress fr)))) \<le> 1 \<and>
             retry_free (polls (map getTaskProgress frs) (step s (Poll (getTaskProgress fr))))"
    using Cons.IH by blast
  then show ?case by (simp add: polls_Cons del: step.simps)
qed

lemma silent_polls:
  "consecutiveErrorCount s = 0 \<Longrightarrow> \<forall>f \<in> set frs. getTaskProgress f \<noteq> Returned Null \<Longrightarrow>
   consecutiveErrorCount (polls (map getTaskProgress frs) s) = 0"
proof (induction frs arbitrary: s)
  case Nil
  then show ?case by (simp add: polls_def)
next
  case (Cons fr frs)
  then show ?case by (simp add: polls_Cons silent_poll del: step.simps)
qed

text \<open>
  Claim C10, amended. \<open>getTaskProgress\<close> never throws and never returns \<open>undefined\<close>; a
  failed request comes back as an object with an \<open>error\<close> field, and (its message not being
  empty) the tick that receives it ends the monitor at once on the explicit-error path. With
  this fetcher the counter of consecutive failures never exceeds 1 and neither retry branch
  ever ends the monitor; the counter stays 0, so no retry branch runs at all, unless a
  successful response carries the JSON body \<open>null\<close>.
\<close>

theorem failed_requests_end_the_monitor_at_once:
  "(\<exists>r. getTaskProgress fr = Returned r \<and> r \<noteq> Undefined) \<and>
   (\<forall>e. request_progress fr = Inl e \<longrightarrow> getTaskProgress fr = Returned (Obj (error_object e))) \<and>
   (\<forall>e. request_progress fr = Inl e \<and> truthy_err (Some e) \<and> \<not> taskCompleted s \<longrightarrow>
        taskCompleted (tick (getTaskProgress fr) s) \<and>
        consecutiveErrorCount (tick (getTaskProgress fr) s) = 0 \<and>
        completions (tick (getTaskProgress fr) s) =
          completions s @ [\<lparr> c_message = MsgFetchError e, c_isError = True, c_data = None \<rparr>]) \<and>
   consecutiveErrorCount (polls (map getTaskProgress frs) monitorTaskProgress) \<le> 1 \<and>
   retry_free (polls (map getTaskProgress frs) monitorTaskProgress) \<and>
   ((\<forall>f \<in> set frs. getTaskProgress f \<noteq> Returned Null) \<longrightarrow>
      consecutiveErrorCount (polls (map getTaskProgress frs) monitorTaskProgress) = 0)"
proof -
  have i0: "consecutiveErrorCount monitorTaskProgress = 0" "retry_free monitorTaskProgress"
    by (simp_all add: monitorTaskProgress_def retry_free_def)
  have a: "\<exists>r. getTaskProgress fr = Returned r \<and> r \<noteq> Undefined"
    by (rule getTaskProgress_returns)
  have b: "\<forall>e. request_progress fr = Inl e \<longrightarrow> getTaskProgress fr = Returned (Obj (error_object e))"
    by (simp add: getTaskProgress_failed)
  have c: "\<forall>e. request_progress fr = Inl e \<and> truthy_err (Some e) \<and> \<not> taskCompleted s \<longrightarrow>
        taskCompleted (tick (getTaskProgress fr) s) \<and>
        consecutiveErrorCount (tick (getTaskProgress fr) s) = 0 \<and>
        completions (tick (getTaskProgress fr) s) =
          completions s @ [\<lparr> c_message = MsgFetchError e, c_isError = True, c_data = None \<rparr>]"
    by (auto simp: getTaskProgress_failed explicit_error_tick cleanupAndComplete_def
        updateProgressBar_def simp del: truthy_err.simps)
  have d: "consecutiveErrorCount (polls (map getTaskProgress frs) monitorTaskProgress) \<le> 1 \<and>
           retry_free (polls (map getTaskProgress frs) monitorTaskProgress)"
    using i0 quiet_polls [of monitorTaskProgress frs] by simp
  have e: "(\<forall>f \<in> set frs. getTaskProgress f \<noteq> Returned Null) \<longrightarrow>
      consecutiveErrorCount (polls (map getTaskProgress frs) monitorTaskProgress) = 0"
    using i0(1) by (simp add: silent_polls)
  from a b c d e show ?thesis by blast
qed

theorem failed_requests_end_the_monitor_at_once_witness:
  "request_progress (Http 500 (NotJson [])) = Inl (HttpFailure 500) \<and>
   truthy_err (Some (HttpFailure 500)) \<and>
   \<not> taskCompleted monitorTaskProgress \<and>
   taskCompleted (tick (getTaskProgress (Http 500 (NotJson []))) monitorTaskProgress) \<and>
   completions (tick (getTaskProgress (Http 500 (NotJson []))) monitorTaskProgress) =
     [\<lparr> c_message = MsgFetchError (HttpFailure 500), c_isError = True, c_data = None \<rparr>] \<and>
   getTaskProgress (Http 200 (Json (JObj (report 50 ''running'')))) \<noteq> Returned Null \<and>
   getTaskProgress (Rejected ''Failed to fetch'') \<noteq> Returned Null \<and>
   consecutiveErrorCount (polls (map getTaskProgress
      [Http 200 (Json (JObj (report 50 ''running''))), Rejected ''Failed to fetch''])
      monitorTaskProgress) = 0 \<and>
   completions (polls (map getTaskProgress
      [Http 200 (Json (JObj (report 50 ''running''))), Rejected ''Failed to fetch''])
      monitorTaskProgress) \<noteq> [] \<and>
   retry_free (polls (map getTaskProgress
      [Http 200 (Json (JObj (report 50 ''running''))), Rejected ''Failed to fetch''])
      monitorTaskProgress)"
proof -
  let ?fr = "Http 500 (NotJson [])"
  let ?frs = "[Http 200 (Json (JObj (report 50 ''running''))), Rejected ''Failed to fetch'']"
  have h1: "request_progress ?fr = Inl (HttpFailure 500)" by (simp add: response_ok_def)
  have h2: "truthy_err (Some (HttpFailure 500))" by simp
  have h3: "\<not> taskCompleted monitorTaskProgress" by (simp add: monitorTaskProgress_def)
  have h4: "\<forall>f \<in> set ?frs. getTaskProgress f \<noteq> Returned Null"
    by (simp add: getTaskProgress_def response_ok_def)
  have h5: "completions (polls (map getTaskProgress ?frs) monitorTaskProgress) \<noteq> []"
    by (simp add: polls_def getTaskProgress_def response_ok_def tick_def tick_body_def
        on_progress_def error_object_def report_def displayPercent_def reported_def
        monitorTaskProgress_def cleanupAndComplete_def updateProgressBar_def Let_def)
  note inst = failed_requests_end_the_monitor_at_once [of ?fr monitorTaskProgress ?frs]
  have c0: "completions monitorTaskProgress = []" by (simp add: monitorTaskProgress_def)
  from inst h1 h2 h3
  have t1: "taskCompleted (tick (getTaskProgress ?fr) monitorTaskProgress) \<and>
            completions (tick (getTaskProgress ?fr) monitorTaskProgress) =
              completions monitorTaskProgress @
              [\<lparr> c_message = MsgFetchError (HttpFailure 500), c_isError = True, c_data = None \<rparr>]"
    by blast
  then have t1': "completions (tick (getTaskProgress ?fr) monitorTaskProgress) =
              [\<lparr> c_message = MsgFetchError (HttpFailure 500), c_isError = True, c_data = None \<rparr>]"
    by (simp only: c0 append_Nil)
  from inst h4
  have t2: "consecutiveErrorCount (polls (map getTaskProgress ?frs) monitorTaskProgress) = 0"
    by blast
  from inst have t3: "retry_free (polls (map getTaskProgress ?frs) monitorTaskProgress)"
    by blast
  from h4 have h4': "getTaskProgress (Http 200 (Json (JObj (report 50 ''running'')))) \<noteq> Returned Null \<and>
                     getTaskProgress (Rejected ''Failed to fetch'') \<noteq> Returned Null"
    by simp
  from h1 h2 h3 h4' h5 t1 t1' t2 t3 show ?thesis by blast
qed

text \<open>
  Claim C10 as stated (the retry branches are never exercised) fails for a successful
  response whose body is \<open>null\<close>: the empty-response branch runs and counts one failure.
\<close>

theorem null_body_enters_retry_branch:
  "\<not> request_failed (Http 200 (Json JNull)) \<and>
   tick (getTaskProgress (Http 200 (Json JNull))) monitorTaskProgress =
     monitorTaskProgress\<lparr> consecutiveErrorCount := 1 \<rparr>"
  by (simp add: request_failed_def response_ok_def getTaskProgress_def tick_def
      empty_response_count monitorTaskProgress_def)


section \<open>Properties of the dependency list\<close>

subsection \<open>Sorting\<close>

lemma mset_insert_by: "mset (insert_by cmp x ys) = add_mset x (mset ys)"
  by (induction ys) simp_all

lemma mset_array_sort: "mset (array_sort cmp xs) = mset xs"
  unfolding array_sort_def by (induction xs) (simp_all add: mset_insert_by)

lemma set_array_sort: "set (array_sort cmp xs) = set xs"
  using mset_array_sort [of cmp xs] by (metis set_mset_mset)

lemma set_insert_by: "set (insert_by cmp x ys) = insert x (set ys)"
  by (induction ys) auto

lemma sorted_insert_by:
  assumes total: "\<And>a b. cmp a b \<le> 0 \<or> cmp b a \<le> 0"
    and trans: "\<And>a b c. cmp a b \<le> 0 \<Longrightarrow> cmp b c \<le> 0 \<Longrightarrow> cmp a c \<le> 0"
  shows "sorted_wrt (\<lambda>a b. cmp a b \<le> 0) ys \<Longrightarrow> sorted_wrt (\<lambda>a b. cmp a b \<le> 0) (insert_by cmp x ys)"
proof (induction ys)
  case Nil
  then show ?case by simp
next
  case (Cons y ys)
  show ?case
  proof (cases "cmp x y \<le> 0")
    case True
    with Cons.prems show ?thesis by (auto intro: trans)
  next
    case False
    with total [of x y] have "cmp y x \<le> 0" by simp
    with False Cons show ?thesis by (auto simp: set_insert_by)
  qed
qed

lemma sorted_array_sort:
  assumes "\<And>a b. cmp a b \<le> 0 \<or> cmp b a \<le> 0"
    and "\<And>a b c. cmp a b \<le> 0 \<Longrightarrow> cmp b c \<le> 0 \<Longrightarrow> cmp a c \<le> 0"
  shows "sorted_wrt (\<lambda>a b. cmp a b \<le> 0) (array_sort cmp xs)"
  unfolding array_sort_def
  by (induction xs) (simp_all add: sorted_insert_by [OF assms, unfolded array_sort_def])

lemma sorted_wrt_unique:
  assumes "sorted_wrt R xs" "sorted_wrt R ys" "mset xs = mset ys"
    and "\<forall>a \<in> set xs. \<forall>b \<in> set xs. R a b \<and> R b a \<longrightarrow> a = b"
  shows "xs = ys"
  using assms
proof (induction xs arbitrary: ys)
  case Nil
  then show ?case by simp
next
  case (Cons x xs)
  from Cons.prems(3) obtain y ys' where ys: "ys = y # ys'" by (cases ys) auto
  have sx: "set (x # xs) = set (y # ys')" using Cons.prems(3) ys by (metis set_mset_mset)
  have xy: "x = y"
  proof (rule ccontr)
    assume ne: "x \<noteq> y"
    with sx have "x \<in> set ys'" "y \<in> set xs" by auto
    with Cons.prems(1,2) ys have "R y x" "R x y" by auto
    moreover have "x \<in> set (x # xs)" "y \<in> set (x # xs)" using sx by auto
    ultimately have "x = y" using Cons.prems(4) by blast
    with ne show False by simp
  qed
  with Cons.prems(3) ys have m: "mset xs = mset ys'" by simp
  have "xs = ys'"
    using Cons.prems(1,2,4) ys m by (intro Cons.IH) auto
  with xy ys show ?case by simp
qed

lemma compareDeps_rank:
  "compareDeps lc a b =
     (if flag_rank a < flag_rank b then - 1
      else if flag_rank b < flag_rank a then 1
      else lc (name a) (name b))"
  unfolding compareDeps_def flag_rank_def
  by (cases "isSystem a"; cases "isSystem b"; cases "isAppRequired a"; cases "isAppRequired b";
      cases "isCore a"; cases "isCore b"; cases "isAIModel a"; cases "isAIModel b") simp_all

lemma compareDeps_precedes: "compareDeps lc a b \<le> 0 \<longleftrightarrow> precedes lc a b"
  by (auto simp: compareDeps_rank precedes_def)


lemma collation_total: "collation lc \<Longrightarrow> lc a b \<le> 0 \<or> lc b a \<le> 0"
proof -
  assume c: "collation lc"
  show ?thesis
  proof (cases "lc a b \<le> 0")
    case True
    then show ?thesis by simp
  next
    case False
    then have "0 < lc a b" by simp
    with c have "lc b a < 0" unfolding collation_def by blast
    then show ?thesis by simp
  qed
qed

lemma collation_trans: "collation lc \<Longrightarrow> lc a b \<le> 0 \<Longrightarrow> lc b c \<le> 0 \<Longrightarrow> lc a c \<le> 0"
  unfolding collation_def by blast

lemma collation_antisym: "collation lc \<Longrightarrow> lc a b \<le> 0 \<Longrightarrow> lc b a \<le> 0 \<Longrightarrow> lc a b = 0"
proof -
  assume c: "collation lc" and ab: "lc a b \<le> 0" and ba: "lc b a \<le> 0"
  have "\<not> lc a b < 0"
  proof
    assume "lc a b < 0"
    with c have "0 < lc b a" unfolding collation_def by blast
    with ba show False by simp
  qed
  with ab show ?thesis by simp
qed

lemma compareDeps_total:
  "collation lc \<Longrightarrow> compareDeps lc a b \<le> 0 \<or> compareDeps lc b a \<le> 0"
  using collation_total [of lc "name a" "name b"] by (auto simp: compareDeps_rank)

lemma compareDeps_trans:
  "collation lc \<Longrightarrow> compareDeps lc a b \<le> 0 \<Longrightarrow> compareDeps lc b c \<le> 0
   \<Longrightarrow> compareDeps lc a c \<le> 0"
  using collation_trans [of lc "name a" "name b" "name c"]
  by (auto simp: compareDeps_rank split: if_splits)

lemma compareDeps_antisym:
  "collation lc \<Longrightarrow> compareDeps lc a b \<le> 0 \<Longrightarrow> compareDeps lc b a \<le> 0
   \<Longrightarrow> lc (name a) (name b) = 0"
  using collation_antisym [of lc "name a" "name b"]
  by (auto simp: compareDeps_rank split: if_splits)

subsection \<open>renderDependencyList\<close>

lemma allDependencies_render:
  "allDependencies (renderDependencyList lc deps st) = array_sort (compareDeps lc) deps"
  by (simp add: renderDependencyList_def Let_def array_sort_def)

lemma rows_render:
  "rows (renderDependencyList lc deps st) =
     map (render_row (selectedDependencies st)) (array_sort (compareDeps lc) deps)"
  by (simp add: renderDependencyList_def Let_def array_sort_def)

lemma selected_render:
  "selectedDependencies (renderDependencyList lc deps st) = selectedDependencies st"
  by (simp add: renderDependencyList_def Let_def)

lemma sorted_render:
  assumes "collation lc"
  shows "sorted_wrt (precedes lc) (array_sort (compareDeps lc) deps)"
proof -
  have "sorted_wrt (\<lambda>a b. compareDeps lc a b \<le> 0) (array_sort (compareDeps lc) deps)"
  proof (rule sorted_array_sort)
    show "\<And>a b. compareDeps lc a b \<le> 0 \<or> compareDeps lc b a \<le> 0"
      using assms by (rule compareDeps_total)
    show "\<And>a b c. compareDeps lc a b \<le> 0 \<Longrightarrow> compareDeps lc b c \<le> 0 \<Longrightarrow> compareDeps lc a c \<le> 0"
      using assms by (rule compareDeps_trans)
  qed
  then show ?thesis by (simp add: compareDeps_precedes)
qed

lemma ordinal_collation: "collation ordinal_compare"
  unfolding collation_def ordinal_compare_def by auto

lemma ordinal_zero: "ordinal_compare a b = 0 \<longleftrightarrow> a = b"
  by (simp add: ordinal_compare_def)

text \<open>
  Claim C6. \<open>renderDependencyList\<close> leaves the entries in the fixed precedence (system,
  then application-required, then core, then AI-model, then the rest, the order of the keys
  deciding among entries equal on all four flags), keeps every entry, renders the rows in
  that order, and produces the same list and rows for every arrival order of the same
  entries. Assumed: \<open>localeCompare\<close> is a consistent comparison, and no two different entries
  have keys it considers equal.
\<close>

theorem render_order_is_canonical:
  assumes "collation lc"
    and "\<forall>a \<in> set deps. \<forall>b \<in> set deps. lc (name a) (name b) = 0 \<longrightarrow> a = b"
    and "mset deps' = mset deps"
  shows "sorted_wrt (precedes lc) (allDependencies (renderDependencyList lc deps st)) \<and>
         mset (allDependencies (renderDependencyList lc deps st)) = mset deps \<and>
         map it_name (rows (renderDependencyList lc deps st)) =
           map name (allDependencies (renderDependencyList lc deps st)) \<and>
         allDependencies (renderDependencyList lc deps' st) =
           allDependencies (renderDependencyList lc deps st) \<and>
         rows (renderDependencyList lc deps' st) = rows (renderDependencyList lc deps st)"
proof -
  let ?R = "\<lambda>a b. compareDeps lc a b \<le> 0"
  let ?xs = "array_sort (compareDeps lc) deps"
  let ?ys = "array_sort (compareDeps lc) deps'"
  have sx: "sorted_wrt ?R ?xs" and sy: "sorted_wrt ?R ?ys"
    using sorted_render [OF assms(1)] by (simp_all add: compareDeps_precedes)
  have m: "mset ?xs = mset ?ys" using assms(3) by (simp add: mset_array_sort)
  have anti: "\<forall>a \<in> set ?xs. \<forall>b \<in> set ?xs. ?R a b \<and> ?R b a \<longrightarrow> a = b"
  proof (intro ballI impI)
    fix a b assume "a \<in> set ?xs" "b \<in> set ?xs" "?R a b \<and> ?R b a"
    then have "a \<in> set deps" "b \<in> set deps" "lc (name a) (name b) = 0"
      using compareDeps_antisym [OF assms(1), of a b] by (simp_all add: set_array_sort)
    with assms(2) show "a = b" by blast
  qed
  have eq: "?xs = ?ys" using sx sy m anti by (rule sorted_wrt_unique)
  have names: "map it_name (map (render_row sel) zs) = map name zs" for sel zs
    by (induction zs) (simp_all add: render_row_def)
  have c1: "sorted_wrt (precedes lc) (allDependencies (renderDependencyList lc deps st))"
    using sorted_render [OF assms(1), of deps] by (simp add: allDependencies_render)
  have c2: "mset (allDependencies (renderDependencyList lc deps st)) = mset deps"
    by (simp add: allDependencies_render mset_array_sort)
  have c3: "map it_name (rows (renderDependencyList lc deps st)) =
           map name (allDependencies (renderDependencyList lc deps st))"
    by (simp only: allDependencies_render rows_render names)
  have c4: "allDependencies (renderDependencyList lc deps' st) =
           allDependencies (renderDependencyList lc deps st)"
    using eq by (simp only: allDependencies_render)
  have c5: "rows (renderDependencyList lc deps' st) = rows (renderDependencyList lc deps st)"
    using eq by (simp only: rows_render)
  from c1 c2 c3 c4 c5 show ?thesis by blast
qed

theorem render_order_is_canonical_witness:
  "collation ordinal_compare \<and>
   mset [entry ''pip'' True False False False, entry ''numpy'' False False True False] =
     mset [entry ''numpy'' False False True False, entry ''pip'' True False False False] \<and>
   allDependencies (renderDependencyList ordinal_compare
      [entry ''pip'' True False False False, entry ''numpy'' False False True False] empty_ui) =
   allDependencies (renderDependencyList ordinal_compare
      [entry ''numpy'' False False True False, entry ''pip'' True False False False] empty_ui) \<and>
   sorted_wrt (precedes ordinal_compare) (allDependencies (renderDependencyList ordinal_compare
      [entry ''numpy'' False False True False, entry ''pip'' True False False False] empty_ui))"
proof -
  let ?deps = "[entry ''numpy'' False False True False, entry ''pip'' True False False False]"
  let ?deps' = "[entry ''pip'' True False False False, entry ''numpy'' False False True False]"
  have h2: "\<forall>a \<in> set ?deps. \<forall>b \<in> set ?deps. ordinal_compare (name a) (name b) = 0 \<longrightarrow> a = b"
    by (simp add: ordinal_zero entry_def)
  have h3: "mset ?deps' = mset ?deps" by simp
  from render_order_is_canonical [OF ordinal_collation h2 h3, of empty_ui] ordinal_collation h3
  show ?thesis by blast
qed


text \<open>
  Claim C5, amended. \<open>renderDependencyList\<close> does not change the selection set: a selected
  key stays in it whether or not the new list has an entry for it. Of the new rows exactly
  those whose key is in the selection set are marked selected, and the rows are those of the
  new entries.
\<close>

theorem replaceAll_keeps_selection:
  "selectedDependencies (renderDependencyList lc deps st) = selectedDependencies st \<and>
   (\<forall>r \<in> set (rows (renderDependencyList lc deps st)).
      cls_selected r \<longleftrightarrow> it_name r \<in> selectedDependencies st) \<and>
   it_name ` set (rows (renderDependencyList lc deps st)) = name ` set deps"
proof -
  have "it_name ` set (rows (renderDependencyList lc deps st)) = name ` set deps"
    by (simp add: rows_render set_array_sort image_image render_row_def)
  then show ?thesis
    by (simp add: selected_render rows_render render_row_def)
qed

theorem replaceAll_keeps_selection_witness:
  "selectedDependencies (renderDependencyList ordinal_compare
      [entry ''numpy'' False False True False, entry ''torch'' False False False True]
      (empty_ui\<lparr> selectedDependencies := {''torch''} \<rparr>)) = {''torch''} \<and>
   map cls_selected (rows (renderDependencyList ordinal_compare
      [entry ''numpy'' False False True False, entry ''torch'' False False False True]
      (empty_ui\<lparr> selectedDependencies := {''torch''} \<rparr>))) = [False, True]"
proof -
  let ?deps = "[entry ''numpy'' False False True False, entry ''torch'' False False False True]"
  let ?st = "empty_ui\<lparr> selectedDependencies := {''torch''} \<rparr>"
  have r: "map it_name (rows (renderDependencyList ordinal_compare ?deps ?st)) = [''numpy'', ''torch'']"
    by (simp add: rows_render array_sort_def compareDeps_def entry_def render_row_def)
  have s: "selectedDependencies ?st = {''torch''}" by (simp add: empty_ui_def)
  from replaceAll_keeps_selection [of ordinal_compare ?deps ?st]
  have a: "selectedDependencies (renderDependencyList ordinal_compare ?deps ?st) = {''torch''}"
    and b: "\<forall>r \<in> set (rows (renderDependencyList ordinal_compare ?deps ?st)).
              cls_selected r \<longleftrightarrow> it_name r \<in> {''torch''}"
    using s by simp_all
  have "map cls_selected (rows (renderDependencyList ordinal_compare ?deps ?st)) =
        map (\<lambda>r. it_name r \<in> {''torch''}) (rows (renderDependencyList ordinal_compare ?deps ?st))"
    using b by (simp cong: map_cong)
  also have "\<dots> = map (\<lambda>n. n \<in> {''torch''}) (map it_name (rows (renderDependencyList ordinal_compare ?deps ?st)))"
    by (simp add: comp_def)
  also have "\<dots> = [False, True]" unfolding r by simp
  finally show ?thesis using a by simp
qed

text \<open>
  Claim C5 as stated (keys absent from the new list are pruned from the selection set)
  fails: with \<open>torch\<close> selected and a new list that holds only \<open>numpy\<close>, \<open>torch\<close> is still
  selected after the replacement.
\<close>

theorem replaceAll_leaves_stale_key:
  "''torch'' \<in> selectedDependencies (renderDependencyList ordinal_compare
      [entry ''numpy'' False False True False]
      (empty_ui\<lparr> selectedDependencies := {''torch''} \<rparr>)) \<and>
   ''torch'' \<notin> name ` set (allDependencies (renderDependencyList ordinal_compare
      [entry ''numpy'' False False True False]
      (empty_ui\<lparr> selectedDependencies := {''torch''} \<rparr>)))"
  by (simp add: renderDependencyList_def array_sort_def entry_def empty_ui_def)

subsection \<open>filterDependencies\<close>

lemma filter_item_row: "fst (filter_item ft r sel) = hide_row ft r"
  by (simp add: filter_item_def hide_row_def Let_def)

lemma filter_item_sel:
  "snd (filter_item ft r sel) =
     (if \<not> shouldShow ft r \<and> cls_selected r \<and> it_name r \<noteq> [] then sel - {it_name r} else sel)"
  by (simp add: filter_item_def selection_changed_def Let_def)

lemma filter_items_rows: "fst (filter_items ft its sel) = map (hide_row ft) its"
proof (induction its arbitrary: sel)
  case Nil
  then show ?case by simp
next
  case (Cons r its)
  have "fst (filter_items ft (r # its) sel) =
        fst (filter_item ft r sel) # fst (filter_items ft its (snd (filter_item ft r sel)))"
    by (simp add: Let_def split: prod.splits)
  then show ?case by (simp add: Cons.IH filter_item_row)
qed

lemma filter_items_sel:
  "snd (filter_items ft its sel) =
     sel - {it_name r |r. r \<in> set its \<and> \<not> shouldShow ft r \<and> cls_selected r \<and> it_name r \<noteq> []}"
proof (induction its arbitrary: sel)
  case Nil
  then show ?case by simp
next
  case (Cons r its)
  have "snd (filter_items ft (r # its) sel) = snd (filter_items ft its (snd (filter_item ft r sel)))"
    by (simp add: Let_def split: prod.splits)
  then show ?case by (auto simp: Cons.IH filter_item_sel)
qed

lemma rows_filter: "rows (filterDependencies ft st) = map (hide_row ft) (rows st)"
  using filter_items_rows [of ft "rows st" "selectedDependencies st"]
  by (cases "filter_items ft (rows st) (selectedDependencies st)")
     (simp add: filterDependencies_def)

lemma selected_filter:
  "selectedDependencies (filterDependencies ft st) =
     selectedDependencies st -
       {it_name r |r. r \<in> set (rows st) \<and> \<not> shouldShow ft r \<and> cls_selected r \<and> it_name r \<noteq> []}"
  using filter_items_sel [of ft "rows st" "selectedDependencies st"]
  by (cases "filter_items ft (rows st) (selectedDependencies st)")
     (simp add: filterDependencies_def)

lemma shouldShow_flags:
  "shouldShow ft (r\<lparr> display_none := b \<rparr>) = shouldShow ft r"
  "shouldShow ft (r\<lparr> cls_selected := c \<rparr>) = shouldShow ft r"
  by (simp_all add: shouldShow_def)

lemma shouldShow_all: "shouldShow ''all'' r"
  by (simp add: shouldShow_def)

lemma hide_row_facts:
  "it_name (hide_row ft r) = it_name r"
  "shouldShow ft (hide_row ft r) = shouldShow ft r"
  "display_none (hide_row ft r) = (\<not> shouldShow ft r)"
  "cls_selected (hide_row ft r) = (cls_selected r \<and> (shouldShow ft r \<or> it_name r = []))"
  by (auto simp: hide_row_def filter_item_def shouldShow_flags Let_def)

text \<open>
  \<open>filterDependencies\<close> shows or hides every row by its flags alone (it is a function of
  the filter type and the list state), adds nothing to the selection set and keeps the rows
  in place; the filter \<open>all\<close> shows every row and leaves the selection set as it was. If
  every row has a key and is marked selected exactly when its key is in the selection set
  (\<open>renderDependencyList\<close> leaves the rows so), then no hidden row is selected afterwards,
  neither by its mark nor in the selection set.
\<close>

lemma setFilter_deselects_hidden:
  assumes "\<forall>r \<in> set (rows st). it_name r \<noteq> [] \<and> (cls_selected r \<longleftrightarrow> it_name r \<in> selectedDependencies st)"
  shows "(\<forall>r \<in> set (rows (filterDependencies ft st)). display_none r \<longleftrightarrow> \<not> shouldShow ft r) \<and>
         (\<forall>r \<in> set (rows (filterDependencies ft st)).
            display_none r \<longrightarrow>
              it_name r \<notin> selectedDependencies (filterDependencies ft st) \<and> \<not> cls_selected r) \<and>
         selectedDependencies (filterDependencies ft st) \<subseteq> selectedDependencies st \<and>
         map it_name (rows (filterDependencies ft st)) = map it_name (rows st) \<and>
         (ft = ''all'' \<longrightarrow>
            (\<forall>r \<in> set (rows (filterDependencies ft st)). \<not> display_none r) \<and>
            selectedDependencies (filterDependencies ft st) = selectedDependencies st)"
proof -
  have a: "\<forall>r \<in> set (rows (filterDependencies ft st)). display_none r \<longleftrightarrow> \<not> shouldShow ft r"
    by (simp add: rows_filter hide_row_facts)
  have b: "\<forall>r \<in> set (rows (filterDependencies ft st)).
            display_none r \<longrightarrow>
              it_name r \<notin> selectedDependencies (filterDependencies ft st) \<and> \<not> cls_selected r"
    using assms by (auto simp: rows_filter selected_filter hide_row_facts)
  have c: "selectedDependencies (filterDependencies ft st) \<subseteq> selectedDependencies st"
    by (auto simp: selected_filter)
  have d: "map it_name (rows (filterDependencies ft st)) = map it_name (rows st)"
    by (simp add: rows_filter hide_row_facts)
  have e: "ft = ''all'' \<longrightarrow>
            (\<forall>r \<in> set (rows (filterDependencies ft st)). \<not> display_none r) \<and>
            selectedDependencies (filterDependencies ft st) = selectedDependencies st"
    by (auto simp: rows_filter selected_filter hide_row_facts shouldShow_all)
  from a b c d e show ?thesis by blast
qed

lemma sample_rows:
  "rows sample_ui =
     [\<lparr> it_name = ''pip'', cls_system = True, cls_core = False, cls_ai_model = False,
        cls_app_required = False, cls_selected = False, display_none = False \<rparr>,
      \<lparr> it_name = ''numpy'', cls_system = False, cls_core = True, cls_ai_model = False,
        cls_app_required = False, cls_selected = True, display_none = False \<rparr>]"
  by (simp add: sample_ui_def rows_render array_sort_def compareDeps_def entry_def
      render_row_def empty_ui_def)

lemma sample_selected: "selectedDependencies sample_ui = {''numpy''}"
  by (simp add: sample_ui_def selected_render empty_ui_def)

lemma setFilter_deselects_hidden_example:
  "map display_none (rows (filterDependencies ''system'' sample_ui)) = [False, True] \<and>
   map it_name (rows (filterDependencies ''system'' sample_ui)) = [''pip'', ''numpy''] \<and>
   selectedDependencies sample_ui = {''numpy''} \<and>
   selectedDependencies (filterDependencies ''system'' sample_ui) = {}"
proof -
  have h: "\<forall>r \<in> set (rows sample_ui).
             it_name r \<noteq> [] \<and> (cls_selected r \<longleftrightarrow> it_name r \<in> selectedDependencies sample_ui)"
    by (simp add: sample_rows sample_selected)
  note inst = setFilter_deselects_hidden [OF h, of "''system''"]
  have d: "map display_none (rows (filterDependencies ''system'' sample_ui)) = [False, True]"
    by (simp add: rows_filter sample_rows hide_row_facts shouldShow_def)
  from inst have n: "map it_name (rows (filterDependencies ''system'' sample_ui)) = [''pip'', ''numpy'']"
    by (simp add: sample_rows)
  from d n obtain r1 r2 where rs: "rows (filterDependencies ''system'' sample_ui) = [r1, r2]"
    "display_none r2" "it_name r2 = ''numpy''"
    by (auto simp: map_eq_Cons_conv)
  from inst rs have "''numpy'' \<notin> selectedDependencies (filterDependencies ''system'' sample_ui)"
    by auto
  moreover from inst have "selectedDependencies (filterDependencies ''system'' sample_ui) \<subseteq> {''numpy''}"
    by (simp add: sample_selected)
  ultimately have "selectedDependencies (filterDependencies ''system'' sample_ui) = {}" by blast
  with d n sample_selected show ?thesis by simp
qed


subsection \<open>searchDependencies\<close>

lemma insert_by_key:
  assumes "\<And>x y. cmp x y \<le> 0 \<longleftrightarrow> k x \<le> (k y :: int)"
  shows "insert_by cmp x ys = insort_key k x ys"
  by (induction ys) (simp_all add: assms)

lemma array_sort_key:
  assumes "\<And>x y. cmp x y \<le> 0 \<longleftrightarrow> k x \<le> (k y :: int)"
  shows "array_sort cmp xs = sort_key k xs"
  unfolding array_sort_def sort_key_def
  by (induction xs) (simp_all add: insert_by_key [of cmp k, OF assms])

lemma insort_scored:
  "insort_key (\<lambda>p. - snd p) (x, f x) (map (\<lambda>y. (y, f y)) ys) =
   map (\<lambda>y. (y, f y)) (insort_key (\<lambda>y. - f y) x ys)" for f :: "'a \<Rightarrow> int"
  by (induction ys) simp_all

lemma sort_scored:
  "sort_key (\<lambda>p. - snd p) (map (\<lambda>y. (y, f y)) xs) = map (\<lambda>y. (y, f y)) (sort_key (\<lambda>y. - f y) xs)"
  for f :: "'a \<Rightarrow> int"
  by (induction xs) (simp_all add: insort_scored)

lemma rank_sort_key: "rank q its = sort_key (\<lambda>it. - score q it) its"
proof -
  have "array_sort (\<lambda>a b. snd b - snd a) (map (\<lambda>it. (it, score q it)) its) =
        sort_key (\<lambda>p. - snd p) (map (\<lambda>it. (it, score q it)) its)"
    by (rule array_sort_key) auto
  then show ?thesis by (simp add: rank_def sort_scored o_def)
qed

lemma length_toLowerCase: "length (toLowerCase s) = length s"
  by (simp add: toLowerCase_def)

lemma toLowerCase_Nil: "toLowerCase s = [] \<longleftrightarrow> s = []" "[] = toLowerCase s \<longleftrightarrow> s = []"
  by (auto simp: toLowerCase_def)

lemma toLowerCase_empty: "toLowerCase [] = []"
  by (simp add: toLowerCase_def)

lemma score_spec: "q \<noteq> [] \<Longrightarrow> score q it = spec_score q (it_name it)"
  by (auto simp: score_def spec_score_def Let_def includes_str_def length_toLowerCase
      toLowerCase_Nil toLowerCase_empty startsWith_def split: option.splits)

lemma indexOf_bound: "indexOf s q = Some i \<Longrightarrow> i + length q \<le> length s"
proof (induction s arbitrary: i)
  case Nil
  then show ?case by (simp split: if_splits)
next
  case (Cons c cs)
  show ?case
  proof (cases "startsWith (c # cs) q")
    case True
    then have "length (take (length q) (c # cs)) = length q"
      by (simp only: startsWith_def)
    then have "length q \<le> length (c # cs)"
      by simp
    with True Cons.prems show ?thesis by simp
  next
    case False
    with Cons.prems obtain j where "indexOf cs q = Some j" "i = Suc j" by auto
    with Cons.IH show ?thesis by fastforce
  qed
qed

lemma indexOf_zero: "indexOf s q = Some 0 \<longleftrightarrow> startsWith s q"
  by (cases s) (auto simp: startsWith_def)

lemma lower_a: "lower_char (CHR ''a'') = CHR ''a''" "lower_char (CHR ''b'') = CHR ''b''"
  "lower_char (CHR ''z'') = CHR ''z''"
  by (simp_all add: lower_char_def less_eq_char_def)

lemma lower_long: "toLowerCase (replicate n (CHR ''a'') @ ''b'') = replicate n (CHR ''a'') @ ''b''"
  by (simp add: toLowerCase_def lower_a)

lemma indexOf_long: "indexOf (replicate n (CHR ''a'') @ ''b'') ''b'' = Some n"
  by (induction n) (simp_all add: startsWith_def)

lemma score_long:
  "0 < n \<Longrightarrow> score ''b'' (row_of (replicate n (CHR ''a'') @ ''b'')) = 999 - 2 * int n"
  by (cases n)
     (simp_all add: score_def row_of_def lower_long indexOf_long includes_str_def Let_def
        startsWith_def toLowerCase_def lower_a)

lemma score_zzz: "score ''b'' (row_of ''zzz'') = 0"
  by (simp add: score_def row_of_def includes_str_def Let_def startsWith_def toLowerCase_def
      lower_a)

lemma score_long_row: "score ''b'' long_row = - 1"
  using score_long [of 500] by (simp add: long_row_def)

lemma startsWith_includes: "startsWith s q \<Longrightarrow> includes_str s q"
  by (cases s) (auto simp: includes_str_def startsWith_def)

lemma unmatched_score: "q \<noteq> [] \<Longrightarrow> \<not> matches q it \<Longrightarrow> score q it = 0"
  using startsWith_includes [of "toLowerCase (it_name it)" "toLowerCase q"]
  by (auto simp: score_def matches_def Let_def)

lemma matched_score:
  assumes "q \<noteq> []" "matches q it" "length (it_name it) \<le> 500"
  shows "0 < score q it"
proof -
  let ?pn = "toLowerCase (it_name it)" and ?lq = "toLowerCase q"
  from assms(2) obtain i where i: "indexOf ?pn ?lq = Some i"
    by (auto simp: matches_def includes_str_def)
  then have b: "i + length ?lq \<le> length ?pn" by (rule indexOf_bound)
  have lq: "1 \<le> length ?lq" using assms(1) by (cases q) (simp_all add: length_toLowerCase)
  with b have "1 \<le> length ?pn" by arith
  then have ne: "it_name it \<noteq> []" by (auto simp: length_toLowerCase)
  have len: "length ?pn \<le> 500" using assms(3) by (simp add: length_toLowerCase)
  show ?thesis
  proof (cases "startsWith ?pn ?lq")
    case True
    with ne len show ?thesis by (simp add: score_def Let_def toLowerCase_Nil)
  next
    case False
    from b lq len have "i + length ?pn < 1000" by arith
    then have "int i + int (length ?pn) < 1000" by simp
    with False ne i show ?thesis
      by (simp add: score_def Let_def toLowerCase_Nil includes_str_def)
  qed
qed

lemma positives_then_zeros:
  fixes f :: "'a \<Rightarrow> int"
  assumes "sorted (map (\<lambda>x. - f x) xs)" "\<forall>x \<in> set xs. 0 \<le> f x"
  shows "xs = filter (\<lambda>x. 0 < f x) xs @ filter (\<lambda>x. f x = 0) xs"
  using assms
proof (induction xs)
  case Nil
  then show ?case by simp
next
  case (Cons x xs)
  show ?case
  proof (cases "0 < f x")
    case True
    with Cons show ?thesis by simp
  next
    case False
    with Cons.prems have z: "f x = 0" by simp
    with Cons.prems have "\<forall>y \<in> set xs. f y = 0" by fastforce
    then have "filter (\<lambda>x. 0 < f x) xs = []" "filter (\<lambda>x. f x = 0) xs = xs"
      by (simp_all add: filter_empty_conv filter_id_conv)
    with z show ?thesis by simp
  qed
qed

lemma rows_search: "q \<noteq> [] \<Longrightarrow> rows (searchDependencies q st) = rank q (rows st)"
  by (simp add: searchDependencies_def Let_def)

lemma sorted_rank: "sorted_wrt (\<lambda>a b. score q b \<le> score q a) (rank q its)"
proof -
  have "sorted (map (\<lambda>it. - score q it) (rank q its))"
    unfolding rank_sort_key by (rule sorted_sort_key)
  then show ?thesis by (simp add: sorted_map)
qed

lemma stable_rank:
  "filter (\<lambda>it. score q it = v) (rank q its) = filter (\<lambda>it. score q it = v) its"
  using sort_key_stable [of "\<lambda>it. - score q it" "- v" its]
  by (simp add: rank_sort_key)

lemma matched_first:
  assumes "q \<noteq> []" "\<forall>it \<in> set its. length (it_name it) \<le> 500"
  shows "rank q its = filter (matches q) (rank q its) @ filter (\<lambda>it. \<not> matches q it) its"
proof -
  have s: "set (rank q its) = set its" by (simp add: rank_sort_key)
  have pos: "0 < score q it \<longleftrightarrow> matches q it" if "it \<in> set its" for it
  proof (cases "matches q it")
    case True
    with that assms show ?thesis by (simp add: matched_score)
  next
    case False
    with assms(1) show ?thesis by (simp add: unmatched_score)
  qed
  have zero: "score q it = 0 \<longleftrightarrow> \<not> matches q it" if "it \<in> set its" for it
  proof (cases "matches q it")
    case True
    with that assms have "0 < score q it" by (simp add: matched_score)
    with True show ?thesis by simp
  next
    case False
    with assms(1) show ?thesis by (simp add: unmatched_score)
  qed
  have nonneg: "\<forall>it \<in> set (rank q its). 0 \<le> score q it"
  proof
    fix it assume "it \<in> set (rank q its)"
    with s have i: "it \<in> set its" by simp
    show "0 \<le> score q it"
    proof (cases "matches q it")
      case True
      with pos [OF i] show ?thesis by simp
    next
      case False
      with zero [OF i] show ?thesis by simp
    qed
  qed
  have "sorted (map (\<lambda>it. - score q it) (rank q its))"
    unfolding rank_sort_key by (rule sorted_sort_key)
  then have "rank q its = filter (\<lambda>it. 0 < score q it) (rank q its) @
                          filter (\<lambda>it. score q it = 0) (rank q its)"
    using nonneg by (rule positives_then_zeros)
  also have "filter (\<lambda>it. score q it = 0) (rank q its) = filter (\<lambda>it. score q it = 0) its"
    by (rule stable_rank)
  also have "filter (\<lambda>it. score q it = 0) its = filter (\<lambda>it. \<not> matches q it) its"
    by (rule filter_cong) (simp_all add: zero)
  also have "filter (\<lambda>it. 0 < score q it) (rank q its) = filter (matches q) (rank q its)"
    by (rule filter_cong) (simp_all add: pos s)
  finally show ?thesis .
qed

text \<open>
  Claim C7, amended. For a non-empty query \<open>searchDependencies\<close> arranges the rows by
  \<open>rank\<close>. The score of a row is the one the specification gives (prefix match: 2000 minus
  the length of the key, plus 500 when the key is less than 3 characters longer than the
  query; other substring match: 1000 minus the position minus the length; otherwise 0, all
  in lower case). The ranking keeps every row, is in descending order of score, and keeps
  rows of equal score in their input order. A row that does not match scores 0, and a
  matching row whose key has at most 500 characters scores more than 0; so, when no key is
  longer than that, all matching rows come first and the rows that do not match follow in
  their input order.
\<close>

theorem search_ranking:
  assumes "q \<noteq> []"
  shows "rows (searchDependencies q st) = rank q (rows st) \<and>
         (\<forall>it. score q it = spec_score q (it_name it)) \<and>
         mset (rank q its) = mset its \<and>
         sorted_wrt (\<lambda>a b. score q b \<le> score q a) (rank q its) \<and>
         (\<forall>v. filter (\<lambda>it. score q it = v) (rank q its) = filter (\<lambda>it. score q it = v) its) \<and>
         (\<forall>it. \<not> matches q it \<longrightarrow> score q it = 0) \<and>
         (\<forall>it. matches q it \<and> length (it_name it) \<le> 500 \<longrightarrow> 0 < score q it) \<and>
         ((\<forall>it \<in> set its. length (it_name it) \<le> 500) \<longrightarrow>
            rank q its = filter (matches q) (rank q its) @ filter (\<lambda>it. \<not> matches q it) its)"
proof -
  have a: "rows (searchDependencies q st) = rank q (rows st)" using assms by (rule rows_search)
  have b: "\<forall>it. score q it = spec_score q (it_name it)" using assms score_spec by blast
  have c: "mset (rank q its) = mset its" by (simp add: rank_sort_key)
  have d: "\<forall>v. filter (\<lambda>it. score q it = v) (rank q its) = filter (\<lambda>it. score q it = v) its"
    using stable_rank by blast
  have e: "\<forall>it. \<not> matches q it \<longrightarrow> score q it = 0" using assms unmatched_score by blast
  have f: "\<forall>it. matches q it \<and> length (it_name it) \<le> 500 \<longrightarrow> 0 < score q it"
    using assms matched_score by blast
  have g: "(\<forall>it \<in> set its. length (it_name it) \<le> 500) \<longrightarrow>
            rank q its = filter (matches q) (rank q its) @ filter (\<lambda>it. \<not> matches q it) its"
    using assms matched_first [of q its] by blast
  have h: "sorted_wrt (\<lambda>a b. score q b \<le> score q a) (rank q its)" by (rule sorted_rank)
  show ?thesis by (intro conjI) (fact a b c d e f g h)+
qed

lemma lower_letters:
  "toLowerCase ''num'' = ''num''" "toLowerCase ''numpy'' = ''numpy''"
  "toLowerCase ''numba'' = ''numba''" "toLowerCase ''pandas'' = ''pandas''"
  "toLowerCase ''numexpr'' = ''numexpr''"
  by (simp_all add: toLowerCase_def lower_char_def less_eq_char_def)


text \<open>
  The example of the specification: for the query \<open>num\<close> the keys numpy and numba score
  2495, numexpr 1993 and pandas 0, and the two ties keep their input order.
\<close>

lemma sample_scores:
  "map (score ''num'') sample_items = [2495, 2495, 0, 1993]"
  by (simp add: sample_items_def score_def row_of_def lower_letters startsWith_def
      includes_str_def Let_def)

lemma rank_example:
  "map it_name (rank ''num'' sample_items) = [''numpy'', ''numba'', ''numexpr'', ''pandas'']"
  using sample_scores
  by (simp add: rank_def array_sort_def sample_items_def row_of_def)

theorem search_ranking_witness:
  "''num'' \<noteq> [] \<and>
   list_all (\<lambda>it. length (it_name it) \<le> 500) sample_items \<and>
   matches ''num'' (row_of ''numexpr'') \<and> 0 < score ''num'' (row_of ''numexpr'') \<and>
   \<not> matches ''num'' (row_of ''pandas'') \<and> score ''num'' (row_of ''pandas'') = 0 \<and>
   mset (rank ''num'' sample_items) = mset sample_items \<and>
   rank ''num'' sample_items =
     filter (matches ''num'') (rank ''num'' sample_items) @
     filter (\<lambda>it. \<not> matches ''num'' it) sample_items"
proof -
  have q: "''num'' \<noteq> []" by simp
  have l: "list_all (\<lambda>it. length (it_name it) \<le> 500) sample_items"
    by (simp add: sample_items_def row_of_def)
  then have l': "\<forall>it \<in> set sample_items. length (it_name it) \<le> 500"
    by (simp only: list_all_iff)
  have m: "matches ''num'' (row_of ''numexpr'')" "length (it_name (row_of ''numexpr'')) \<le> 500"
    by (simp_all add: matches_def row_of_def lower_letters includes_str_def startsWith_def)
  have n: "\<not> matches ''num'' (row_of ''pandas'')"
    by (simp add: matches_def row_of_def lower_letters includes_str_def startsWith_def)
  note inst = search_ranking [OF q, of empty_ui sample_items]
  from inst m have p: "0 < score ''num'' (row_of ''numexpr'')" by blast
  from inst n have z: "score ''num'' (row_of ''pandas'') = 0" by blast
  from inst have c: "mset (rank ''num'' sample_items) = mset sample_items" by blast
  from inst l' have g: "rank ''num'' sample_items =
     filter (matches ''num'') (rank ''num'' sample_items) @
     filter (\<lambda>it. \<not> matches ''num'' it) sample_items" by blast
  show ?thesis by (intro conjI) (fact q l m(1) p n z c g)+
qed

text \<open>
  Claim C7 as stated (rows of score 0 come after all matching rows, for every list) fails
  for long keys: a key of 500 letters \<open>a\<close> followed by \<open>b\<close> matches the query \<open>b\<close> with score
  \<open>1000 - 500 - 501 = -1\<close> and is ranked after a row that does not match.
\<close>

theorem long_match_ranks_after_non_match:
  "matches ''b'' long_row \<and> \<not> matches ''b'' (row_of ''zzz'') \<and>
   score ''b'' (row_of ''zzz'') = 0 \<and>
   rank ''b'' [long_row, row_of ''zzz''] = [row_of ''zzz'', long_row]"
proof -
  have m: "matches ''b'' long_row"
    by (simp add: matches_def long_row_def row_of_def includes_str_def lower_long indexOf_long
        toLowerCase_def lower_a)
  have n: "\<not> matches ''b'' (row_of ''zzz'')"
    by (simp add: matches_def row_of_def includes_str_def startsWith_def toLowerCase_def lower_a)
  have r: "rank ''b'' [long_row, row_of ''zzz''] = [row_of ''zzz'', long_row]"
    by (simp add: rank_def array_sort_def score_zzz score_long_row)
  from m n r score_zzz show ?thesis by simp
qed


subsection \<open>Filtering after a search\<close>

lemma rendered_two:
  "renderDependencyList ordinal_compare two_entries empty_ui =
     \<lparr> allDependencies = two_entries, selectedDependencies = {},
       rows = [(row_of ''pip'')\<lparr> cls_system := True \<rparr>, (row_of ''numpy'')\<lparr> cls_core := True \<rparr>],
       originalOrder = [] \<rparr>"
  by (simp add: renderDependencyList_def two_entries_def array_sort_def compareDeps_def entry_def
      render_row_def empty_ui_def row_of_def)

lemma lower_np: "toLowerCase ''n'' = ''n''" "toLowerCase ''pip'' = ''pip''"
  by (simp_all add: toLowerCase_def lower_char_def less_eq_char_def)

lemma scores_two:
  "score ''n'' ((row_of ''pip'')\<lparr> cls_system := True \<rparr>) = 0"
  "score ''n'' ((row_of ''numpy'')\<lparr> cls_core := True \<rparr>) = 1995"
  by (simp_all add: score_def row_of_def lower_np lower_letters startsWith_def includes_str_def
      Let_def)

lemma searched_two:
  "searchDependencies ''n'' (renderDependencyList ordinal_compare two_entries empty_ui) =
     \<lparr> allDependencies = two_entries, selectedDependencies = {},
       rows = [(row_of ''numpy'')\<lparr> cls_core := True \<rparr>, (row_of ''pip'')\<lparr> cls_system := True \<rparr>],
       originalOrder = [(row_of ''pip'')\<lparr> cls_system := True \<rparr>,
                        (row_of ''numpy'')\<lparr> cls_core := True \<rparr>] \<rparr>"
  by (simp add: rendered_two searchDependencies_def rank_def array_sort_def scores_two)

lemma checked_two:
  "checkbox_changed ''numpy'' True
     (searchDependencies ''n'' (renderDependencyList ordinal_compare two_entries empty_ui)) =
     \<lparr> allDependencies = two_entries, selectedDependencies = {''numpy''},
       rows = [(row_of ''numpy'')\<lparr> cls_core := True, cls_selected := True \<rparr>,
               (row_of ''pip'')\<lparr> cls_system := True \<rparr>],
       originalOrder = [(row_of ''pip'')\<lparr> cls_system := True \<rparr>,
                        (row_of ''numpy'')\<lparr> cls_core := True \<rparr>] \<rparr>"
  unfolding searched_two
  by (simp add: checkbox_changed_def selection_changed_def row_of_def)

lemma stale_marks_eq:
  "stale_marks =
     \<lparr> allDependencies = two_entries, selectedDependencies = {''numpy''},
       rows = [(row_of ''pip'')\<lparr> cls_system := True \<rparr>, (row_of ''numpy'')\<lparr> cls_core := True \<rparr>],
       originalOrder = [(row_of ''pip'')\<lparr> cls_system := True \<rparr>,
                        (row_of ''numpy'')\<lparr> cls_core := True \<rparr>] \<rparr>"
  unfolding stale_marks_def checked_two
  by (simp add: searchDependencies_def resetDependencyOrder_def)

text \<open>
  Claim C8 (after a filter is applied no hidden entry remains selected) does not hold of the
  code. \<open>filterDependencies\<close> takes a row for selected by its \<open>selected\<close> mark, and
  \<open>resetDependencyOrder\<close> puts back copies of the rows as they were before the first
  search. After searching for \<open>n\<close>, ticking \<open>numpy\<close> and clearing the search, the row of
  \<open>numpy\<close> is unmarked while its key is in the selection set; the filter \<open>system\<close> then hides
  the row and leaves the key selected.
\<close>

theorem hidden_row_stays_selected:
  "''numpy'' \<in> selectedDependencies (filterDependencies ''system'' stale_marks) \<and>
   map it_name (rows (filterDependencies ''system'' stale_marks)) = [''pip'', ''numpy''] \<and>
   map display_none (rows (filterDependencies ''system'' stale_marks)) = [False, True] \<and>
   map cls_selected (rows stale_marks) = [False, False] \<and>
   selectedDependencies stale_marks = {''numpy''}"
  by (simp add: stale_marks_eq filterDependencies_def filter_item_def shouldShow_def Let_def
      row_of_def)

section \<open>Properties of the refresh after a finished job\<close>

text \<open>
  Claim C9 (install, update and version switch each refresh the one entry after the job has
  completed and fall back to a full reload when that fails) does not hold of the code. The
  completion callback of an update does nothing more when the refresh of the entry fails;
  the callback of a version switch does reload the list. An install refreshes the entry
  before \<open>handlePackageInstall\<close> returns, when the job has only been submitted, and its
  completion callback reloads the whole list whatever the refresh gave.
\<close>

theorem update_has_no_fallback:
  "update_onComplete True FetchThrows = [] \<and>
   update_onComplete True FetchNothing = [] \<and>
   switch_onComplete True FetchThrows = [FullReload False] \<and>
   switch_onComplete True FetchNothing = [FullReload False] \<and>
   switch_onComplete True (FetchEntry (entry ''numpy'' False False True False)) =
     [UpdateItem (entry ''numpy'' False False True False), NotifySuccess] \<and>
   handlePackageInstall True (ApiResult True (Some ''task-1'')) FetchNothing =
     ([], Some [FullReload False]) \<and>
   handlePackageInstall True (ApiResult True (Some ''task-1''))
       (FetchEntry (entry ''numpy'' False False True False)) =
     ([UpdateItem (entry ''numpy'' False False True False)], Some [FullReload False])"
  by (simp add: update_onComplete_def switch_onComplete_def handlePackageInstall_def)

end
